theory Spec2Isabelle
  imports Main "HOL-Library.Word"
begin

section \<open>Data model of julio.go\<close>

text \<open>
  Go's \<^verbatim>\<open>error\<close> values.  \<^verbatim>\<open>strconv\<close> reports a \<^verbatim>\<open>*NumError\<close> wrapping
  \<^verbatim>\<open>ErrSyntax\<close> or \<^verbatim>\<open>ErrRange\<close> together with the offending input; every other
  error (driver, listener, query builder, JSON encoder) is an opaque value.
\<close>

datatype error = ErrSyntax string | ErrRange string | OtherError string

text \<open>A run-time panic, as raised by \<^verbatim>\<open>close\<close> on a closed channel.\<close>

datatype panic = Panic string

text \<open>\<^verbatim>\<open>type Row struct { ID int; Data json.RawMessage }\<close>\<close>

record Row =
  ID :: int
  Data :: string

text \<open>
  A \<^verbatim>\<open>squirrel.Sqlizer\<close> is known to the program only through \<^verbatim>\<open>ToSql()\<close>, which
  yields either an error or a condition; the condition is represented by the rows for
  which the store evaluates it to true.  The model covers filters whose \<^verbatim>\<open>Sqlizer\<close> is
  set; what squirrel does with a nil one is not part of this repository.
\<close>

type_synonym sqlizer = "error + (Row \<Rightarrow> bool)"

text \<open>\<^verbatim>\<open>type Filter struct { Sqlizer squirrel.Sqlizer; Offset uint64; Updates bool }\<close>\<close>

record Filter =
  Sqlizer :: sqlizer
  Offset :: "64 word"
  Updates :: bool

subsection \<open>Channels\<close>

text \<open>
  A Go channel: the buffered elements (oldest first), the capacity given to \<^verbatim>\<open>make\<close>
  and whether \<^verbatim>\<open>close\<close> has been called.
\<close>

record 'a chan =
  buf :: "'a list"
  cap :: nat
  closed :: bool

definition make_chan :: "nat \<Rightarrow> 'a chan" where
  "make_chan n = \<lparr>buf = [], cap = n, closed = False\<rparr>"

text \<open>What a channel operation can do at a given moment.\<close>

datatype 'a attempt = Ready 'a | WouldBlock | Panics panic

text \<open>
  \<^verbatim>\<open>ch <- x\<close>: panics on a closed channel, proceeds while the buffer has room and
  blocks otherwise (no receiver of this program ever waits on an unbuffered channel
  that is sent to).
\<close>

definition chan_send :: "'a \<Rightarrow> 'a chan \<Rightarrow> 'a chan attempt" where
  "chan_send x c =
     (if closed c then Panics (Panic ''send on closed channel'')
      else if length (buf c) < cap c then Ready (c\<lparr>buf := buf c @ [x]\<rparr>)
      else WouldBlock)"

text \<open>
  \<^verbatim>\<open>x, ok := <-ch\<close>: the oldest buffered element; on an empty channel the zero value
  with \<^verbatim>\<open>ok = false\<close> (here \<open>None\<close>) once the channel is closed, and blocking before.
\<close>

definition chan_recv :: "'a chan \<Rightarrow> ('a option \<times> 'a chan) attempt" where
  "chan_recv c =
     (case buf c of
        x # xs \<Rightarrow> Ready (Some x, c\<lparr>buf := xs\<rparr>)
      | [] \<Rightarrow> if closed c then Ready (None, c) else WouldBlock)"

text \<open>\<^verbatim>\<open>close(ch)\<close>: panics when the channel is closed already.\<close>

definition chan_close :: "'a chan \<Rightarrow> panic + 'a chan" where
  "chan_close c =
     (if closed c then Inl (Panic ''close of closed channel'')
      else Inr (c\<lparr>closed := True\<rparr>))"

subsection \<open>Query building (squirrel) and the store\<close>

text \<open>
  The statement a \<^verbatim>\<open>SelectBuilder\<close> has collected when \<^verbatim>\<open>ToSql\<close> is called: result
  columns, table, the \<^verbatim>\<open>WHERE\<close> condition, the \<^verbatim>\<open>ORDER BY\<close> columns and the
  \<^verbatim>\<open>OFFSET\<close>, which is present only when \<^verbatim>\<open>Offset\<close> was called on the builder.
\<close>

record select_stmt =
  columns :: "string list"
  from_table :: string
  where_clause :: "Row \<Rightarrow> bool"
  order_bys :: "string list"
  offset_clause :: "64 word option"

text \<open>\<^verbatim>\<open>squirrel.Eq{"id": id}\<close>: the column \<^verbatim>\<open>id\<close> equals the value; it always builds.\<close>

definition Eq_id :: "int \<Rightarrow> sqlizer" where
  "Eq_id n = Inr (\<lambda>r. ID r = n)"

text \<open>
  \<^verbatim>\<open>squirrel.And{...}\<close>: builds its parts from left to right, fails with the first
  part that fails, and otherwise is their conjunction.
\<close>

fun And_parts :: "sqlizer list \<Rightarrow> sqlizer" where
  "And_parts [] = Inr (\<lambda>r. True)"
| "And_parts (Inl e # ps) = Inl e"
| "And_parts (Inr p # ps) =
     (case And_parts ps of Inl e \<Rightarrow> Inl e | Inr q \<Rightarrow> Inr (\<lambda>r. p r \<and> q r))"

text \<open>
  \<^verbatim>\<open>psql.Select(cols...).From(t).Where(w)[.Offset(k)].OrderBy(obs...).ToSql()\<close>: fails
  without result columns or when the condition fails to build.
\<close>

definition select_ToSql ::
  "string list \<Rightarrow> string \<Rightarrow> sqlizer \<Rightarrow> 64 word option \<Rightarrow> string list \<Rightarrow> error + select_stmt" where
  "select_ToSql cols t w k obs =
     (if cols = [] then Inl (OtherError ''select statements must have at least one result column'')
      else case w of
        Inl e \<Rightarrow> Inl e
      | Inr p \<Rightarrow> Inr \<lparr>columns = cols, from_table = t, where_clause = p,
                     order_bys = obs, offset_clause = k\<rparr>)"

text \<open>
  \<^verbatim>\<open>*sql.Rows\<close>: what the successive \<^verbatim>\<open>Next\<close>/\<^verbatim>\<open>Scan\<close> pairs will deliver (a row, or a
  scan error), and the error \<^verbatim>\<open>rows.Err()\<close> reports once \<^verbatim>\<open>Next\<close> has returned false.
\<close>

record rows_cursor =
  pending :: "(error + Row) list"
  final_err :: "error option"

text \<open>
  The store is an external collaborator (PostgreSQL behind \<^verbatim>\<open>database/sql\<close>); the
  program reaches it through \<^verbatim>\<open>DB.Query\<close> and \<^verbatim>\<open>pq.Listener.Listen\<close> only.  Both are
  parameters of the model: the answer of \<^verbatim>\<open>DB.Query\<close> may depend on the statement and
  on the current table contents, and either call may fail.
\<close>

type_synonym tables = "string \<Rightarrow> Row list"

record env =
  db_Query :: "tables \<Rightarrow> select_stmt \<Rightarrow> error + rows_cursor"
  pq_Listen :: "string \<Rightarrow> error option"

text \<open>
  Modelled from the spec: the store's \<^verbatim>\<open>Query(table, predicate, ascendingByID, offset?)\<close>
  is not part of the repository.  It keeps the rows of the table that satisfy the
  condition, orders them by \<^verbatim>\<open>id\<close> when asked to, and then skips the offset.
\<close>

definition run_select :: "tables \<Rightarrow> select_stmt \<Rightarrow> Row list" where
  "run_select tabs q =
     (let matched = filter (where_clause q) (tabs (from_table q));
          ordered = (if order_bys q = [''id''] then sort_key ID matched else matched)
      in case offset_clause q of
           None \<Rightarrow> ordered
         | Some k \<Rightarrow> drop (unat k) ordered)"

text \<open>A store that answers every query, and delivers every row, without a fault.\<close>

definition healthy_Query :: "tables \<Rightarrow> select_stmt \<Rightarrow> error + rows_cursor" where
  "healthy_Query tabs q = Inr \<lparr>pending = map Inr (run_select tabs q), final_err = None\<rparr>"

subsection \<open>\<^verbatim>\<open>strconv.Atoi\<close>\<close>

definition is_digit :: "char \<Rightarrow> bool" where
  "is_digit c = (48 \<le> (of_char c :: int) \<and> (of_char c :: int) \<le> 57)"

definition digit_val :: "char \<Rightarrow> int" where
  "digit_val c = of_char c - 48"

text \<open>
  \<^verbatim>\<open>strconv.ParseUint(s, 10, 64)\<close> on a non-empty string: digit by digit, reporting a
  syntax error at the first character that is no digit and a range error as soon as the
  value leaves 64 bits.  \<open>s0\<close> is the whole input, quoted in the error.
\<close>

fun parse_uint :: "string \<Rightarrow> int \<Rightarrow> string \<Rightarrow> error + int" where
  "parse_uint s0 n [] = Inr n"
| "parse_uint s0 n (c # cs) =
     (if \<not> is_digit c then Inl (ErrSyntax s0)
      else let n' = n * 10 + digit_val c
           in if n' \<ge> 2 ^ 64 then Inl (ErrRange s0) else parse_uint s0 n' cs)"

text \<open>
  \<^verbatim>\<open>strconv.Atoi\<close> for a 64-bit \<^verbatim>\<open>int\<close>: an optional sign, then at least one digit;
  the value must fit \<open>[-2\<^sup>6\<^sup>3, 2\<^sup>6\<^sup>3 - 1]\<close>.
\<close>

definition Atoi :: "string \<Rightarrow> error + int" where
  "Atoi s =
     (case s of
        [] \<Rightarrow> Inl (ErrSyntax s)
      | c # cs \<Rightarrow>
          let neg = (c = CHR ''-'');
              ds = (if c = CHR ''-'' \<or> c = CHR ''+'' then cs else s)
          in if ds = [] then Inl (ErrSyntax s)
             else case parse_uint s 0 ds of
               Inl e \<Rightarrow> Inl e
             | Inr un \<Rightarrow>
                 if \<not> neg \<and> un \<ge> 2 ^ 63 then Inl (ErrRange s)
                 else if neg \<and> un > 2 ^ 63 then Inl (ErrRange s)
                 else Inr (if neg then - un else un))"

section \<open>The cursor and its two goroutines\<close>

text \<open>
  \<^verbatim>\<open>type Rows struct { C chan Row; Err error; julio *Julio; table string;
  filter Filter; backlog chan Row; done chan struct{} }\<close>.  Nothing is ever sent on
  \<^verbatim>\<open>done\<close>; it is only closed.
\<close>

record Rows =
  C :: "Row chan"
  Err :: "error option"
  table :: string
  filter_of :: Filter
  backlog :: "Row chan"
  done_ch :: "unit chan"

text \<open>Program points of \<^verbatim>\<open>selectloop\<close>.\<close>

datatype sel_pc =
    SelStart                      \<comment> \<open>about to build the historical query\<close>
  | SelQuery select_stmt          \<comment> \<open>about to call \<^verbatim>\<open>DB.Query\<close>\<close>
  | SelNext rows_cursor           \<comment> \<open>at \<^verbatim>\<open>rows.Next()\<close>\<close>
  | SelSend Row rows_cursor       \<comment> \<open>at the \<^verbatim>\<open>select\<close> sending a historical row\<close>
  | SelDrain                      \<comment> \<open>at \<^verbatim>\<open>range r.backlog\<close>\<close>
  | SelDrainSend Row              \<comment> \<open>at \<^verbatim>\<open>r.C <- row\<close> of the drain loop\<close>
  | SelReturn                     \<comment> \<open>returning: the deferred \<^verbatim>\<open>close(r.C)\<close> is due\<close>
  | SelExited
  | SelPanicked

text \<open>Program points of \<^verbatim>\<open>notifyloop\<close>.\<close>

datatype lis_pc =
    LisStart                      \<comment> \<open>at the test of \<^verbatim>\<open>r.filter.Updates\<close>\<close>
  | LisWait                       \<comment> \<open>at the outer \<^verbatim>\<open>select\<close>\<close>
  | LisGot string                 \<comment> \<open>holding the payload \<^verbatim>\<open>n.Extra\<close> of a notification\<close>
  | LisQuery select_stmt          \<comment> \<open>about to call \<^verbatim>\<open>DB.Query\<close>\<close>
  | LisNext rows_cursor           \<comment> \<open>at \<^verbatim>\<open>rows.Next()\<close>\<close>
  | LisSend Row rows_cursor       \<comment> \<open>at the \<^verbatim>\<open>select\<close> sending to the backlog\<close>
  | LisReturn                     \<comment> \<open>returning: the deferred calls are due\<close>
  | LisExited
  | LisPanicked

text \<open>
  The running system: the \<^verbatim>\<open>Rows\<close> value shared by everybody, the table contents behind
  \<^verbatim>\<open>julio.DB\<close>, the listener's subscription and the payloads (\<^verbatim>\<open>n.Extra\<close>) of the
  notifications waiting on \<^verbatim>\<open>listener.Notify\<close>, the program point of each goroutine, and
  the rows the consumer has taken from \<^verbatim>\<open>C\<close> so far.
\<close>

record system = Rows +
  store :: tables
  subscribed :: bool
  notifyq :: "string list"
  lpc :: lis_pc
  spc :: sel_pc
  received :: "Row list"

text \<open>\<^verbatim>\<open>const prefix = "julio_notify"\<close>\<close>

definition prefix :: string where
  "prefix = ''julio_notify''"

text \<open>
  \<^verbatim>\<open>Get\<close> allocates the three channels and starts both goroutines; it returns at once.
\<close>

definition Get :: "tables \<Rightarrow> string \<Rightarrow> Filter \<Rightarrow> system" where
  "Get db tbl flt =
     \<lparr>C = make_chan 1024, Err = None, table = tbl, filter_of = flt,
      backlog = make_chan 1024, done_ch = make_chan 0,
      store = db, subscribed = False, notifyq = [],
      lpc = LisStart, spc = SelStart, received = []\<rparr>"

text \<open>
  Which way a goroutine goes at its current program point: \<open>Proceed\<close> where the code has
  no choice, and the case taken at a \<^verbatim>\<open>select\<close>.  A step that is not possible now (the
  case is not ready, the channel operation blocks) is \<open>None\<close>.
\<close>

datatype choice = Proceed | SendCase | DoneCase | NotifyCase | TimerCase

text \<open>\<^verbatim>\<open>r.Err = err; return\<close> in either goroutine.\<close>

definition sel_fail :: "error \<Rightarrow> system \<Rightarrow> system" where
  "sel_fail e s = s\<lparr>Err := Some e, spc := SelReturn\<rparr>"

definition lis_fail :: "error \<Rightarrow> system \<Rightarrow> system" where
  "lis_fail e s = s\<lparr>Err := Some e, lpc := LisReturn\<rparr>"

text \<open>\<^verbatim>\<open>case <-r.done:\<close> is ready exactly when a receive from \<^verbatim>\<open>done\<close> is.\<close>

definition done_ready :: "system \<Rightarrow> bool" where
  "done_ready s = (case chan_recv (done_ch s) of Ready x \<Rightarrow> True | _ \<Rightarrow> False)"

fun sel_at :: "env \<Rightarrow> sel_pc \<Rightarrow> choice \<Rightarrow> system \<Rightarrow> system option" where
  "sel_at env SelStart Proceed s =
     (case select_ToSql [''id'', ''data''] (table s) (Sqlizer (filter_of s))
             (Some (Offset (filter_of s))) [''id''] of
        Inl e \<Rightarrow> Some (sel_fail e s)
      | Inr q \<Rightarrow> Some (s\<lparr>spc := SelQuery q\<rparr>))"
| "sel_at env (SelQuery q) Proceed s =
     (case db_Query env (store s) q of
        Inl e \<Rightarrow> Some (sel_fail e s)
      | Inr cur \<Rightarrow> Some (s\<lparr>spc := SelNext cur\<rparr>))"
| "sel_at env (SelNext cur) Proceed s =
     (case pending cur of
        [] \<Rightarrow> (case final_err cur of
                 Some e \<Rightarrow> Some (sel_fail e s)
               | None \<Rightarrow> Some (s\<lparr>spc := SelDrain\<rparr>))
      | Inl e # rest \<Rightarrow> Some (sel_fail e s)
      | Inr row # rest \<Rightarrow> Some (s\<lparr>spc := SelSend row (cur\<lparr>pending := rest\<rparr>)\<rparr>))"
| "sel_at env (SelSend row cur) SendCase s =
     (case chan_send row (C s) of
        Ready c' \<Rightarrow> Some (s\<lparr>C := c', spc := SelNext cur\<rparr>)
      | WouldBlock \<Rightarrow> None
      | Panics p \<Rightarrow> Some (s\<lparr>spc := SelPanicked\<rparr>))"
| "sel_at env (SelSend row cur) DoneCase s =
     (if done_ready s then Some (s\<lparr>spc := SelReturn\<rparr>) else None)"
| "sel_at env SelDrain Proceed s =
     (case chan_recv (backlog s) of
        Ready (Some row, b') \<Rightarrow> Some (s\<lparr>backlog := b', spc := SelDrainSend row\<rparr>)
      | Ready (None, b') \<Rightarrow> Some (s\<lparr>spc := SelReturn\<rparr>)
      | WouldBlock \<Rightarrow> None
      | Panics p \<Rightarrow> Some (s\<lparr>spc := SelPanicked\<rparr>))"
| "sel_at env (SelDrainSend row) Proceed s =
     (case chan_send row (C s) of
        Ready c' \<Rightarrow> Some (s\<lparr>C := c', spc := SelDrain\<rparr>)
      | WouldBlock \<Rightarrow> None
      | Panics p \<Rightarrow> Some (s\<lparr>spc := SelPanicked\<rparr>))"
| "sel_at env SelReturn Proceed s =
     (case chan_close (C s) of
        Inr c' \<Rightarrow> Some (s\<lparr>C := c', spc := SelExited\<rparr>)
      | Inl p \<Rightarrow> Some (s\<lparr>spc := SelPanicked\<rparr>))"
| "sel_at env pc c s = None"

text \<open>One step of \<^verbatim>\<open>selectloop\<close>.\<close>

definition sel_step :: "env \<Rightarrow> choice \<Rightarrow> system \<Rightarrow> system option" where
  "sel_step env c s = sel_at env (spc s) c s"

fun lis_at :: "env \<Rightarrow> lis_pc \<Rightarrow> choice \<Rightarrow> system \<Rightarrow> system option" where
  "lis_at env LisStart Proceed s =
     (if \<not> Updates (filter_of s) then Some (s\<lparr>lpc := LisReturn\<rparr>)
      else case pq_Listen env (prefix @ ''_'' @ table s) of
        Some e \<Rightarrow> Some (lis_fail e s)
      | None \<Rightarrow> Some (s\<lparr>subscribed := True, lpc := LisWait\<rparr>))"
| "lis_at env LisWait DoneCase s =
     (if done_ready s then Some (s\<lparr>lpc := LisReturn\<rparr>) else None)"
| "lis_at env LisWait NotifyCase s =
     (case notifyq s of
        [] \<Rightarrow> None
      | n # ns \<Rightarrow> Some (s\<lparr>notifyq := ns, lpc := LisGot n\<rparr>))"
| "lis_at env LisWait TimerCase s = Some s"
| "lis_at env (LisGot n) Proceed s =
     (case Atoi n of
        Inl e \<Rightarrow> Some (lis_fail e s)
      | Inr i \<Rightarrow>
          (case select_ToSql [''id'', ''data''] (table s)
                  (And_parts [Eq_id i, Sqlizer (filter_of s)]) None [''id''] of
             Inl e \<Rightarrow> Some (lis_fail e s)
           | Inr q \<Rightarrow> Some (s\<lparr>lpc := LisQuery q\<rparr>)))"
| "lis_at env (LisQuery q) Proceed s =
     (case db_Query env (store s) q of
        Inl e \<Rightarrow> Some (lis_fail e s)
      | Inr cur \<Rightarrow> Some (s\<lparr>lpc := LisNext cur\<rparr>))"
| "lis_at env (LisNext cur) Proceed s =
     (case pending cur of
        [] \<Rightarrow> (case final_err cur of
                 Some e \<Rightarrow> Some (lis_fail e s)
               | None \<Rightarrow> Some (s\<lparr>lpc := LisWait\<rparr>))
      | Inl e # rest \<Rightarrow> Some (lis_fail e s)
      | Inr row # rest \<Rightarrow> Some (s\<lparr>lpc := LisSend row (cur\<lparr>pending := rest\<rparr>)\<rparr>))"
| "lis_at env (LisSend row cur) SendCase s =
     (case chan_send row (backlog s) of
        Ready b' \<Rightarrow> Some (s\<lparr>backlog := b', lpc := LisNext cur\<rparr>)
      | WouldBlock \<Rightarrow> None
      | Panics p \<Rightarrow> Some (s\<lparr>lpc := LisPanicked\<rparr>))"
| "lis_at env (LisSend row cur) DoneCase s =
     (if done_ready s then Some (s\<lparr>lpc := LisReturn\<rparr>) else None)"
| "lis_at env LisReturn Proceed s =
     (case chan_close (backlog s) of
        Inr b' \<Rightarrow> Some (s\<lparr>backlog := b', subscribed := False, lpc := LisExited\<rparr>)
      | Inl p \<Rightarrow> Some (s\<lparr>lpc := LisPanicked\<rparr>))"
| "lis_at env pc c s = None"

text \<open>One step of \<^verbatim>\<open>notifyloop\<close>.\<close>

definition lis_step :: "env \<Rightarrow> choice \<Rightarrow> system \<Rightarrow> system option" where
  "lis_step env c s = lis_at env (lpc s) c s"

text \<open>
  \<^verbatim>\<open>func (r *Rows) Close() { defer func() { recover() }(); close(r.done) }\<close>: the
  result is the panic that leaves the call, if any, and the new state.
\<close>

definition Close :: "system \<Rightarrow> panic option \<times> system" where
  "Close s =
     (case chan_close (done_ch s) of
        Inr d \<Rightarrow> (None, s\<lparr>done_ch := d\<rparr>)
      | Inl p \<Rightarrow> (None, s))"

text \<open>The consumer's \<^verbatim>\<open>for row := range rows.C\<close> takes one row.\<close>

definition consume :: "system \<Rightarrow> system option" where
  "consume s =
     (case chan_recv (C s) of
        Ready (Some row, c') \<Rightarrow> Some (s\<lparr>C := c', received := received s @ [row]\<rparr>)
      | _ \<Rightarrow> None)"

text \<open>
  Everything that can happen: a step of either goroutine, a call of \<^verbatim>\<open>Close\<close>, the
  consumer taking a row, a notification with the given payload arriving on the
  cursor's channel (kept only while the listener is subscribed), and a row being
  inserted into the cursor's table.
\<close>

datatype action =
  Sel choice | Lis choice | CallClose | Consume | Notify string | Insert Row

definition step :: "env \<Rightarrow> action \<Rightarrow> system \<Rightarrow> system option" where
  "step env a s =
     (case a of
        Sel c \<Rightarrow> sel_step env c s
      | Lis c \<Rightarrow> lis_step env c s
      | CallClose \<Rightarrow> Some (snd (Close s))
      | Consume \<Rightarrow> consume s
      | Notify p \<Rightarrow> Some (if subscribed s then s\<lparr>notifyq := notifyq s @ [p]\<rparr> else s)
      | Insert r \<Rightarrow> Some (s\<lparr>store := (store s)(table s := store s (table s) @ [r])\<rparr>))"

text \<open>A schedule is run from left to right; it is \<open>None\<close> when one of its steps is not possible.\<close>

fun exec :: "env \<Rightarrow> action list \<Rightarrow> system \<Rightarrow> system option" where
  "exec env [] s = Some s"
| "exec env (a # as) s =
     (case step env a s of None \<Rightarrow> None | Some s' \<Rightarrow> exec env as s')"

section \<open>\<^verbatim>\<open>Add\<close>\<close>

text \<open>
  The statement an \<^verbatim>\<open>InsertBuilder\<close> has collected: table, columns, the values of the
  one row and the suffix.
\<close>

record insert_stmt =
  into_table :: string
  into_columns :: "string list"
  row_values :: "string list"
  suffix :: string

text \<open>
  \<^verbatim>\<open>psql.Insert(t).Columns(cols...).Values(vals...).Suffix(sfx).ToSql()\<close>: fails without
  a table name and without values.
\<close>

definition insert_ToSql :: "string \<Rightarrow> string list \<Rightarrow> string list \<Rightarrow> string \<Rightarrow> error + insert_stmt" where
  "insert_ToSql t cols vals sfx =
     (if t = [] then Inl (OtherError ''insert statements must specify a table'')
      else if vals = [] then
        Inl (OtherError ''insert statements must have at least one set of values or select clause'')
      else Inr \<lparr>into_table = t, into_columns = cols, row_values = vals, suffix = sfx\<rparr>)"

text \<open>
  \<^verbatim>\<open>func (j *Julio) Add(table string, v interface{}) (int, error)\<close>.  \<^verbatim>\<open>json.Marshal\<close> and
  \<^verbatim>\<open>DB.QueryRow(query, args...).Scan(&id)\<close> are parameters.  The first maps the document
  to its encoding or an error.  The second runs the statement on the database with the
  variable \<^verbatim>\<open>id\<close> holding the given value, and gives the value \<^verbatim>\<open>Scan\<close> leaves in \<^verbatim>\<open>id\<close>,
  the error \<^verbatim>\<open>Scan\<close> returns (if any), and the database afterwards; \<^verbatim>\<open>Scan\<close> may have
  filled \<^verbatim>\<open>id\<close> and still return an error.  \<^verbatim>\<open>Add\<close> sets \<^verbatim>\<open>id := 0\<close> and returns
  \<^verbatim>\<open>id, err\<close> as \<^verbatim>\<open>Scan\<close> left them.  The result is the returned pair and the database
  afterwards.
\<close>

definition Add ::
  "('v \<Rightarrow> error + string) \<Rightarrow>
   ('db \<Rightarrow> insert_stmt \<Rightarrow> int \<Rightarrow> (int \<times> error option) \<times> 'db) \<Rightarrow>
   'db \<Rightarrow> string \<Rightarrow> 'v \<Rightarrow> (int \<times> error option) \<times> 'db" where
  "Add json_Marshal db_QueryRow_Scan db tbl v =
     (case json_Marshal v of
        Inl e \<Rightarrow> ((0, Some e), db)
      | Inr data \<Rightarrow>
          (case insert_ToSql tbl [''data''] [data] ''RETURNING id'' of
             Inl e \<Rightarrow> ((0, Some e), db)
           | Inr q \<Rightarrow>
               (let id0 = 0
                in case db_QueryRow_Scan db q id0 of
                     ((id1, err), db') \<Rightarrow> ((id1, err), db'))))"

section \<open>Auxiliary notions for the properties\<close>

text \<open>
  What holds of the cursor in every state it can be in: each queue is closed exactly when
  its single sender has exited, no goroutine has panicked, both queues have the capacity
  \<^verbatim>\<open>Get\<close> gave them, and nothing has been sent on \<^verbatim>\<open>done\<close>.
\<close>

definition coherent :: "system \<Rightarrow> bool" where
  "coherent s = ((closed (C s) \<longleftrightarrow> spc s = SelExited) \<and>
           (closed (backlog s) \<longleftrightarrow> lpc s = LisExited) \<and>
           spc s \<noteq> SelPanicked \<and> lpc s \<noteq> LisPanicked \<and>
           cap (C s) = 1024 \<and> cap (backlog s) = 1024 \<and>
           buf (done_ch s) = [])"

text \<open>
  A decimal integer string: an optional sign followed by at least one decimal digit.
\<close>

definition decimal_int_string :: "string \<Rightarrow> bool" where
  "decimal_int_string s =
     (case s of
        [] \<Rightarrow> False
      | c # cs \<Rightarrow>
          if c = CHR ''-'' \<or> c = CHR ''+'' then cs \<noteq> [] \<and> list_all is_digit cs
          else list_all is_digit s)"

subsection \<open>Concrete environments and filters used in the examples\<close>

text \<open>A store and a listener without faults.\<close>

definition env_ok :: env where
  "env_ok = \<lparr>db_Query = healthy_Query, pq_Listen = (\<lambda>ch. None)\<rparr>"

text \<open>A live filter whose condition every row satisfies.\<close>

definition live_all :: Filter where
  "live_all = \<lparr>Sqlizer = Inr (\<lambda>r. True), Offset = 0, Updates = True\<rparr>"

subsection \<open>Stores for \<^verbatim>\<open>Add\<close>\<close>

text \<open>
  Modelled from the spec: the store's \<^verbatim>\<open>InsertDocument(table, doc)\<close> is not part of the
  repository.  It assigns the next id of the table (one more than the largest id in
  it), appends the row, and \<^verbatim>\<open>Scan\<close> stores the new id.
\<close>

definition serial_insert :: "tables \<Rightarrow> insert_stmt \<Rightarrow> int \<Rightarrow> (int \<times> error option) \<times> tables" where
  "serial_insert tabs q id0 =
     (let t = tabs (into_table q);
          i = foldr max (map ID t) 0 + 1
      in ((i, None), tabs(into_table q := t @ [\<lparr>ID = i, Data = hd (row_values q)\<rparr>])))"

text \<open>
  A store that refuses every statement and changes nothing: \<^verbatim>\<open>Scan\<close> returns the error
  without touching \<^verbatim>\<open>id\<close>.
\<close>

definition refusing_insert :: "tables \<Rightarrow> insert_stmt \<Rightarrow> int \<Rightarrow> (int \<times> error option) \<times> tables" where
  "refusing_insert tabs q id0 = ((id0, Some (OtherError ''connection refused'')), tabs)"

text \<open>
  A store that inserts the row and lets \<^verbatim>\<open>Scan\<close> fill \<^verbatim>\<open>id\<close>, but then fails while closing
  the result: \<^verbatim>\<open>Scan\<close> returns that error.
\<close>

definition close_failing_insert ::
  "tables \<Rightarrow> insert_stmt \<Rightarrow> int \<Rightarrow> (int \<times> error option) \<times> tables" where
  "close_failing_insert tabs q id0 =
     (case serial_insert tabs q id0 of
        ((i, err), tabs') \<Rightarrow> ((i, Some (OtherError ''close failed'')), tabs'))"

text \<open>Documents that are their own encoding, and a document that cannot be encoded.\<close>

definition marshal_text :: "string option \<Rightarrow> error + string" where
  "marshal_text v =
     (case v of
        Some d \<Rightarrow> Inr d
      | None \<Rightarrow> Inl (OtherError ''json: unsupported type''))"

definition one_row :: tables where
  "one_row = (\<lambda>t. [])(''events'' := [\<lparr>ID = 1, Data = ''{}''\<rparr>])"

subsection \<open>A run that fills the output queue\<close>

text \<open>The schedule that sends \<open>n\<close> historical rows without the consumer taking any.\<close>

definition fill :: "nat \<Rightarrow> action list" where
  "fill n = concat (replicate n [Sel Proceed, Sel SendCase])"

text \<open>A table holding the rows with ids \<open>1, \<dots>, n\<close>.\<close>

definition rows_upto :: "nat \<Rightarrow> Row list" where
  "rows_upto n = map (\<lambda>i. \<lparr>ID = int i, Data = ''{}''\<rparr>) [1..<Suc n]"

definition full_table :: tables where
  "full_table = (\<lambda>t. rows_upto 1024)"

definition late_row :: Row where
  "late_row = \<lparr>ID = 1025, Data = ''{}''\<rparr>"

text \<open>
  The listener subscribes, the historical scan sends all 1024 rows of the table while the
  consumer takes none, a further row is inserted and notified, the listener re-checks it
  and puts it into the backlog, and the drain loop takes it from there.
\<close>

definition sched_fill :: "action list" where
  "sched_fill = [Lis Proceed, Sel Proceed, Sel Proceed] @ fill 1024 @
     [Sel Proceed, Insert late_row, Notify ''1025'', Lis NotifyCase, Lis Proceed, Lis Proceed,
      Lis Proceed, Lis SendCase, Sel Proceed]"

definition blocked_state :: system where
  "blocked_state = (Get full_table ''t'' live_all)
     \<lparr>C := \<lparr>buf = rows_upto 1024, cap = 1024, closed = False\<rparr>,
      store := full_table(''t'' := full_table ''t'' @ [late_row]),
      subscribed := True,
      lpc := LisNext \<lparr>pending = [], final_err = None\<rparr>,
      spc := SelDrainSend late_row\<rparr>"

text \<open>The same state after \<^verbatim>\<open>Close\<close> and after the listener has shut down.\<close>

definition hung_state :: system where
  "hung_state = blocked_state
     \<lparr>done_ch := \<lparr>buf = [], cap = 0, closed = True\<rparr>,
      backlog := \<lparr>buf = [], cap = 1024, closed = True\<rparr>,
      subscribed := False,
      lpc := LisExited\<rparr>"

subsection \<open>A listener and a store that both fail\<close>



subsection \<open>Runs without faults\<close>

text \<open>
  A cursor of the store that will deliver all its rows and report no error; a notification
  whose payload \<^verbatim>\<open>strconv.Atoi\<close> accepts; and the states in which no fault has
  happened or is pending: \<^verbatim>\<open>Err\<close> is nil, the filter's condition builds, and the payloads
  and cursors held by the goroutines are of that kind.
\<close>

definition clean_cursor :: "rows_cursor \<Rightarrow> bool" where
  "clean_cursor cur = (final_err cur = None \<and> list_all (\<lambda>x. \<not> isl x) (pending cur))"

definition numeric_notification :: "action \<Rightarrow> bool" where
  "numeric_notification a = (case a of Notify p \<Rightarrow> \<not> isl (Atoi p) | _ \<Rightarrow> True)"

fun sel_clean :: "sel_pc \<Rightarrow> bool" where
  "sel_clean (SelNext cur) = clean_cursor cur"
| "sel_clean (SelSend row cur) = clean_cursor cur"
| "sel_clean pc = True"

fun lis_clean :: "lis_pc \<Rightarrow> bool" where
  "lis_clean (LisGot n) = (\<not> isl (Atoi n))"
| "lis_clean (LisNext cur) = clean_cursor cur"
| "lis_clean (LisSend row cur) = clean_cursor cur"
| "lis_clean pc = True"

definition clean :: "system \<Rightarrow> bool" where
  "clean s = (Err s = None \<and> \<not> isl (Sqlizer (filter_of s)) \<and>
              list_all (\<lambda>p. \<not> isl (Atoi p)) (notifyq s) \<and>
              lis_clean (lpc s) \<and> sel_clean (spc s))"

text \<open>A table with a single row, and a filter without live tail that every row satisfies.\<close>

definition single_table :: tables where
  "single_table = (\<lambda>t. [\<lparr>ID = 1, Data = ''{}''\<rparr>])"

definition history_all :: Filter where
  "history_all = \<lparr>Sqlizer = Inr (\<lambda>r. True), Offset = 0, Updates = False\<rparr>"

subsection \<open>Cursors without live tail\<close>

text \<open>
  The listener of a cursor whose filter has \<^verbatim>\<open>Updates = false\<close>: not subscribed, nothing
  queued or put into the backlog, and either about to test the flag, returning, or gone.
  \<open>listener_rest\<close> is what is left for it to do.
\<close>

definition idle_listener :: "system \<Rightarrow> bool" where
  "idle_listener s = (\<not> Updates (filter_of s) \<and> \<not> subscribed s \<and> buf (backlog s) = [] \<and>
                      notifyq s = [] \<and> (lpc s = LisStart \<or> lpc s = LisReturn \<or> lpc s = LisExited))"

fun listener_rest :: "lis_pc \<Rightarrow> action list" where
  "listener_rest LisStart = [Lis Proceed, Lis Proceed]"
| "listener_rest LisReturn = [Lis Proceed]"
| "listener_rest pc = []"

subsection \<open>The two queries\<close>




definition history_stmt :: "string \<Rightarrow> (Row \<Rightarrow> bool) \<Rightarrow> 64 word \<Rightarrow> select_stmt" where
  "history_stmt tbl p k =
     \<lparr>columns = [''id'', ''data''], from_table = tbl, where_clause = p,
      order_bys = [''id''], offset_clause = Some k\<rparr>"







subsection \<open>The historical scan\<close>

text \<open>
  The rows a filter asks for: those of the table that satisfy the condition, in ascending
  order of \<^verbatim>\<open>ID\<close>, without the first \<^verbatim>\<open>Offset\<close> of them.
\<close>

definition expected_rows :: "(Row \<Rightarrow> bool) \<Rightarrow> 64 word \<Rightarrow> Row list \<Rightarrow> Row list" where
  "expected_rows p k rows = drop (unat k) (sort_key ID (filter p rows))"

text \<open>Actions other than a call of \<^verbatim>\<open>Close\<close> and an insertion into the table.\<close>

definition quiet :: "action \<Rightarrow> bool" where
  "quiet a = (case a of CallClose \<Rightarrow> False | Insert r \<Rightarrow> False | _ \<Rightarrow> True)"

text \<open>
  How far the scan has come: \<open>sent\<close> are the rows sent so far (those the consumer has
  taken, followed by those still in the output queue), \<open>ex\<close> is the answer to the query
  \<open>q\<close>.  What was sent, followed by what the cursor will still deliver, is the answer.
\<close>

fun sel_hist :: "select_stmt \<Rightarrow> Row list \<Rightarrow> Row list \<Rightarrow> sel_pc \<Rightarrow> bool" where
  "sel_hist q ex sent SelStart = (sent = [])"
| "sel_hist q ex sent (SelQuery q') = (sent = [] \<and> q' = q)"
| "sel_hist q ex sent (SelNext cur) =
     (final_err cur = None \<and> map Inr ex = map Inr sent @ pending cur)"
| "sel_hist q ex sent (SelSend row cur) =
     (final_err cur = None \<and> map Inr ex = map Inr sent @ Inr row # pending cur)"
| "sel_hist q ex sent SelDrain = (sent = ex)"
| "sel_hist q ex sent SelReturn = (sent = ex)"
| "sel_hist q ex sent SelExited = (sent = ex)"
| "sel_hist q ex sent pc = False"

definition hist :: "(Row \<Rightarrow> bool) \<Rightarrow> string \<Rightarrow> 64 word \<Rightarrow> tables \<Rightarrow> system \<Rightarrow> bool" where
  "hist p tbl k db s =
     (Sqlizer (filter_of s) = Inr p \<and> table s = tbl \<and> Offset (filter_of s) = k \<and> store s = db \<and>
      buf (done_ch s) = [] \<and> \<not> closed (done_ch s) \<and>
      sel_hist (history_stmt tbl p k) (run_select db (history_stmt tbl p k))
        (received s @ buf (C s)) (spc s))"

text \<open>
  A schedule that drains a cursor without live tail: the listener closes the backlog, the
  scan builds and runs its query, each of the \<open>n\<close> rows is sent and taken by the consumer
  at once, and the scan leaves the loops and closes the output queue.
\<close>

definition drain_all :: "nat \<Rightarrow> action list" where
  "drain_all n = [Lis Proceed, Lis Proceed, Sel Proceed, Sel Proceed] @
                 concat (replicate n [Sel Proceed, Sel SendCase, Consume]) @
                 [Sel Proceed, Sel Proceed, Sel Proceed]"

text \<open>
  Three rows stored out of order, and a filter without live tail that two of them
  satisfy and that skips one match.
\<close>

definition shuffled :: tables where
  "shuffled = (\<lambda>t. [\<lparr>ID = 3, Data = ''[3]''\<rparr>, \<lparr>ID = 1, Data = ''[1]''\<rparr>, \<lparr>ID = 2, Data = ''[2]''\<rparr>])"

definition skip_one :: Filter where
  "skip_one = \<lparr>Sqlizer = Inr (\<lambda>r. 2 \<le> ID r), Offset = 1, Updates = False\<rparr>"

text \<open>
  The steps of the cursor and of its consumer, and a bound on how many of them a cursor
  without live tail can still take when the query has \<open>n\<close> rows: what the scan and the
  listener have left to do, and the rows waiting in the output queue.
\<close>

definition is_move :: "action \<Rightarrow> bool" where
  "is_move a = (case a of Sel c \<Rightarrow> True | Lis c \<Rightarrow> True | Consume \<Rightarrow> True | _ \<Rightarrow> False)"

fun sel_left :: "nat \<Rightarrow> sel_pc \<Rightarrow> nat" where
  "sel_left n SelStart = 3 * n + 6"
| "sel_left n (SelQuery q) = 3 * n + 5"
| "sel_left n (SelNext cur) = 3 * length (pending cur) + 4"
| "sel_left n (SelSend row cur) = 3 * length (pending cur) + 6"
| "sel_left n SelDrain = 3"
| "sel_left n SelReturn = 2"
| "sel_left n pc = 0"

fun lis_left :: "lis_pc \<Rightarrow> nat" where
  "lis_left LisStart = 2"
| "lis_left LisReturn = 1"
| "lis_left pc = 0"

definition steps_left :: "nat \<Rightarrow> system \<Rightarrow> nat" where
  "steps_left n s = sel_left n (spc s) + lis_left (lpc s) + length (buf (C s))"

section \<open>Basic facts\<close>

text \<open>What unfolds one step of a run on a concrete state; \<open>run_simps\<close> also runs the query.\<close>

lemmas move_simps = Get_def make_chan_def step_def sel_step_def lis_step_def sel_fail_def
  lis_fail_def chan_send_def chan_recv_def chan_close_def consume_def Close_def done_ready_def
  select_ToSql_def healthy_Query_def Eq_id_def

lemmas run_simps = move_simps run_select_def

lemma coherent_Get: "coherent (Get db tbl flt)"
  by (simp add: coherent_def Get_def make_chan_def)

lemma coherent_sel_step: "coherent s \<Longrightarrow> sel_step env c s = Some s' \<Longrightarrow> coherent s'"
  by (cases "spc s"; cases c)
     (auto simp: coherent_def sel_step_def sel_fail_def chan_send_def chan_recv_def chan_close_def
           split: sum.splits list.splits option.splits if_splits)

lemma coherent_lis_step: "coherent s \<Longrightarrow> lis_step env c s = Some s' \<Longrightarrow> coherent s'"
  by (cases "lpc s"; cases c)
     (auto simp: coherent_def lis_step_def lis_fail_def chan_send_def chan_recv_def chan_close_def
           split: sum.splits list.splits option.splits if_splits)

lemma coherent_step:
  assumes "coherent s" "step env a s = Some s'"
  shows "coherent s'"
proof (cases a)
  case (Sel c)
  with assms show ?thesis by (simp add: step_def coherent_sel_step)
next
  case (Lis c)
  with assms show ?thesis by (simp add: step_def coherent_lis_step)
next
  case CallClose
  with assms show ?thesis
    by (auto simp: step_def Close_def chan_close_def coherent_def split: if_splits)
next
  case Consume
  with assms show ?thesis
    by (auto simp: step_def consume_def chan_recv_def coherent_def split: list.splits if_splits)
next
  case (Notify p)
  with assms show ?thesis
    by (auto simp: step_def coherent_def split: if_splits)
next
  case (Insert r)
  with assms show ?thesis
    by (auto simp: step_def coherent_def)
qed

lemma coherent_exec: "coherent s \<Longrightarrow> exec env sched s = Some s' \<Longrightarrow> coherent s'"
  by (induction sched arbitrary: s) (auto split: option.splits dest: coherent_step)

lemma exec_append:
  "exec env (as @ bs) s = (case exec env as s of None \<Rightarrow> None | Some s' \<Rightarrow> exec env bs s')"
  by (induction as arbitrary: s) (auto split: option.splits)

lemma lis_return_closes:
  assumes "coherent s" "lpc s = LisReturn"
  shows "lis_step env Proceed s =
         Some (s\<lparr>backlog := (backlog s)\<lparr>closed := True\<rparr>, subscribed := False, lpc := LisExited\<rparr>)"
  using assms by (simp add: lis_step_def coherent_def chan_close_def)

lemma Close_eq: "Close s = (None, s\<lparr>done_ch := (done_ch s)\<lparr>closed := True\<rparr>\<rparr>)"
  by (simp add: Close_def chan_close_def)

lemma done_ready_iff: "coherent s \<Longrightarrow> done_ready s = closed (done_ch s)"
  by (simp add: done_ready_def chan_recv_def coherent_def)

lemma sel_return_closes:
  assumes "coherent s" "spc s = SelReturn"
  shows "sel_step env Proceed s = Some (s\<lparr>C := (C s)\<lparr>closed := True\<rparr>, spc := SelExited\<rparr>)"
  using assms by (simp add: sel_step_def coherent_def chan_close_def)

section \<open>Frame facts and composed runs\<close>

lemma exec_append_Some:
  "exec env as s = Some s1 \<Longrightarrow> exec env bs s1 = r \<Longrightarrow> exec env (as @ bs) s = r"
  by (simp add: exec_append)

lemma sel_send_step:
  assumes "spc s = SelNext cur" "pending cur = Inr r # rest"
    and "\<not> closed (C s)" "length (buf (C s)) < cap (C s)"
  shows "exec env [Sel Proceed, Sel SendCase] s =
           Some (s\<lparr>C := (C s)\<lparr>buf := buf (C s) @ [r]\<rparr>, spc := SelNext (cur\<lparr>pending := rest\<rparr>)\<rparr>)"
  using assms by (simp add: step_def sel_step_def chan_send_def)

lemma fill_history:
  assumes "spc s = SelNext cur" "pending cur = map Inr rs @ rest"
    and "\<not> closed (C s)" "length (buf (C s)) + length rs \<le> cap (C s)"
  shows "exec env (fill (length rs)) s =
           Some (s\<lparr>C := (C s)\<lparr>buf := buf (C s) @ rs\<rparr>, spc := SelNext (cur\<lparr>pending := rest\<rparr>)\<rparr>)"
  using assms
proof (induction rs arbitrary: s cur)
  case Nil
  then show ?case by (simp add: fill_def)
next
  case (Cons r rs)
  let ?s1 = "s\<lparr>C := (C s)\<lparr>buf := buf (C s) @ [r]\<rparr>,
               spc := SelNext (cur\<lparr>pending := map Inr rs @ rest\<rparr>)\<rparr>"
  have 1: "exec env [Sel Proceed, Sel SendCase] s = Some ?s1"
    using Cons.prems by (intro sel_send_step) auto
  have 2: "exec env (fill (length rs)) ?s1 =
      Some (?s1\<lparr>C := (C ?s1)\<lparr>buf := buf (C ?s1) @ rs\<rparr>,
                 spc := SelNext ((cur\<lparr>pending := map Inr rs @ rest\<rparr>)\<lparr>pending := rest\<rparr>)\<rparr>)"
    using Cons.prems by (intro Cons.IH) auto
  have 3: "fill (length (r # rs)) = [Sel Proceed, Sel SendCase] @ fill (length rs)"
    by (simp add: fill_def)
  have "exec env (fill (length (r # rs))) s = exec env (fill (length rs)) ?s1"
    unfolding 3 exec_append 1 by simp
  also note 2
  finally show ?case by simp
qed

lemma lis_step_frame:
  "lis_step env c s = Some s' \<Longrightarrow> spc s' = spc s \<and> C s' = C s \<and> received s' = received s"
  by (cases "lpc s"; cases c)
     (auto simp: lis_step_def lis_fail_def chan_send_def chan_close_def
           split: sum.splits list.splits option.splits if_splits)

section \<open>The listener of a cursor without live tail\<close>

lemma idle_Get: "\<not> Updates flt \<Longrightarrow> idle_listener (Get db tbl flt)"
  by (simp add: idle_listener_def Get_def make_chan_def)

lemma idle_sel_step:
  assumes "idle_listener s" "sel_step env c s = Some s'"
  shows "idle_listener s'"
  using assms
  by (cases "spc s"; cases c)
     (auto simp: idle_listener_def sel_step_def sel_fail_def chan_recv_def
           split: sum.splits list.splits option.splits if_splits attempt.splits prod.splits)

lemma idle_lis_step:
  assumes "idle_listener s" "lis_step env c s = Some s'" "coherent s"
  shows "idle_listener s'"
  using assms
  by (cases "lpc s"; cases c)
     (auto simp: idle_listener_def lis_step_def lis_fail_def chan_close_def coherent_def
           split: sum.splits list.splits option.splits if_splits attempt.splits prod.splits)

lemma idle_step:
  assumes "idle_listener s" "step env a s = Some s'" "coherent s"
  shows "idle_listener s'"
proof (cases a)
  case (Sel c)
  with assms idle_sel_step [of s env c s'] show ?thesis by (simp add: step_def)
next
  case (Lis c)
  with assms idle_lis_step [of s env c s'] show ?thesis by (simp add: step_def)
next
  case CallClose
  with assms show ?thesis by (auto simp: step_def Close_eq idle_listener_def)
next
  case Consume
  with assms show ?thesis
    by (auto simp: step_def consume_def chan_recv_def idle_listener_def split: list.splits if_splits)
next
  case (Notify p)
  with assms show ?thesis by (auto simp: step_def idle_listener_def)
next
  case (Insert r)
  with assms show ?thesis by (auto simp: step_def idle_listener_def)
qed

lemma idle_exec:
  "idle_listener s \<Longrightarrow> coherent s \<Longrightarrow> exec env sched s = Some s' \<Longrightarrow> idle_listener s'"
proof (induction sched arbitrary: s)
  case Nil
  then show ?case by simp
next
  case (Cons a sched)
  from Cons.prems(3) obtain s1 where s1: "step env a s = Some s1" "exec env sched s1 = Some s'"
    by (auto split: option.splits)
  from idle_step [OF Cons.prems(1) s1(1) Cons.prems(2)] coherent_step [OF Cons.prems(2) s1(1)] s1(2)
  show ?case by (rule Cons.IH)
qed

lemma idle_listener_moves:
  assumes "idle_listener s" "coherent s"
  shows "lis_step env c s =
           (if c \<noteq> Proceed then None
            else if lpc s = LisStart then Some (s\<lparr>lpc := LisReturn\<rparr>)
            else if lpc s = LisReturn then
              Some (s\<lparr>backlog := (backlog s)\<lparr>closed := True\<rparr>, subscribed := False, lpc := LisExited\<rparr>)
            else None)"
  using assms
  by (cases c) (auto simp: idle_listener_def lis_step_def coherent_def chan_close_def)

lemma idle_listener_finishes:
  assumes "idle_listener s" "coherent s"
  shows "exec env (listener_rest (lpc s)) s =
           Some (s\<lparr>backlog := (backlog s)\<lparr>closed := True\<rparr>, lpc := LisExited\<rparr>)"
proof -
  from assms(1) consider "lpc s = LisStart" | "lpc s = LisReturn" | "lpc s = LisExited"
    by (auto simp: idle_listener_def)
  then show ?thesis
  proof cases
    case 1
    with assms show ?thesis
      by (simp add: step_def lis_step_def idle_listener_def coherent_def chan_close_def)
  next
    case 2
    with assms show ?thesis
      by (simp add: step_def lis_step_def idle_listener_def coherent_def chan_close_def)
  next
    case 3
    with assms have "closed (backlog s)" by (simp add: coherent_def)
    with 3 show ?thesis by simp
  qed
qed

lemma drained_scan_closes:
  assumes "spc s = SelDrain" "closed (backlog s)" "buf (backlog s) = []" "\<not> closed (C s)"
  shows "exec env [Sel Proceed, Sel Proceed] s =
           Some (s\<lparr>C := (C s)\<lparr>closed := True\<rparr>, spc := SelExited\<rparr>)"
  using assms by (simp add: step_def sel_step_def chan_recv_def chan_close_def)

section \<open>The listener's re-check\<close>


lemma static_lis_step:
  "lis_step env c s = Some s' \<Longrightarrow> table s' = table s \<and> filter_of s' = filter_of s"
  by (cases "lpc s"; cases c)
     (auto simp: lis_step_def lis_fail_def
           split: sum.splits list.splits option.splits if_splits attempt.splits prod.splits)























section \<open>The historical scan\<close>

lemma history_builds:
  assumes "spc s = SelStart" "Sqlizer (filter_of s) = Inr p"
  shows "sel_step env Proceed s =
           Some (s\<lparr>spc := SelQuery (history_stmt (table s) p (Offset (filter_of s)))\<rparr>)"
  using assms by (simp add: sel_step_def select_ToSql_def history_stmt_def)


lemma hist_Get: "Sqlizer flt = Inr p \<Longrightarrow> hist p tbl (Offset flt) db (Get db tbl flt)"
  by (simp add: hist_def Get_def make_chan_def)

lemma map_Inr_eq_append:
  "(map Inr ex = map Inr a @ (map Inr b :: ('e + 'a) list)) = (ex = a @ b)"
proof -
  have "(map Inr ex = (map Inr (a @ b) :: ('e + 'a) list)) = (ex = a @ b)"
    by (rule inj_map_eq_map [OF inj_Inr])
  then show ?thesis by simp
qed

lemma map_Inr_no_Inl: "map Inr ex \<noteq> xs @ Inl e # ys"
proof
  assume "map Inr ex = xs @ Inl e # ys"
  then have "Inl e \<in> set (map Inr ex)" by simp
  then show False by auto
qed

lemma map_Inr_no_Inl2: "map Inr ex \<noteq> xs @ ys @ Inl e # zs"
  using map_Inr_no_Inl [of ex "xs @ ys" e zs] by simp

lemma hist_sel_step:
  assumes "hist p tbl k db s" "sel_step env c s = Some s'"
    and "db_Query env = healthy_Query" "idle_listener s" "coherent s"
  shows "hist p tbl k db s'"
proof (cases "spc s")
  case SelStart
  with assms show ?thesis
    by (cases c) (auto simp: hist_def sel_step_def select_ToSql_def history_stmt_def)
next
  case (SelQuery q)
  with assms show ?thesis
    by (cases c) (auto simp: hist_def sel_step_def healthy_Query_def)
next
  case (SelNext cur)
  with assms show ?thesis
    by (cases c; cases "pending cur")
       (auto simp: hist_def sel_step_def sel_fail_def map_Inr_eq_append map_Inr_no_Inl map_Inr_no_Inl2
             split: sum.splits option.splits)
next
  case (SelSend row cur)
  with assms show ?thesis
    by (cases c)
       (auto simp: hist_def sel_step_def chan_send_def done_ready_def chan_recv_def coherent_def
             split: if_splits)
next
  case SelDrain
  with assms show ?thesis
    by (cases c)
       (auto simp: hist_def sel_step_def chan_recv_def idle_listener_def split: if_splits)
next
  case (SelDrainSend row)
  with assms show ?thesis by (simp add: hist_def)
next
  case SelReturn
  with assms show ?thesis
    by (cases c) (auto simp: hist_def sel_step_def chan_close_def coherent_def split: if_splits)
next
  case SelExited
  with assms show ?thesis by (simp add: sel_step_def)
next
  case SelPanicked
  with assms show ?thesis by (simp add: hist_def)
qed

lemma lis_step_frame2:
  "lis_step env c s = Some s' \<Longrightarrow> store s' = store s \<and> done_ch s' = done_ch s"
  by (cases "lpc s"; cases c)
     (auto simp: lis_step_def lis_fail_def
           split: sum.splits list.splits option.splits if_splits attempt.splits prod.splits)

lemma hist_step:
  assumes "hist p tbl k db s" "step env a s = Some s'" "quiet a"
    and "db_Query env = healthy_Query" "idle_listener s" "coherent s"
  shows "hist p tbl k db s'"
proof (cases a)
  case (Sel c)
  with assms hist_sel_step [of p tbl k db s env c s'] show ?thesis by (simp add: step_def)
next
  case (Lis c)
  with assms lis_step_frame [of env c s s'] lis_step_frame2 [of env c s s']
    static_lis_step [of env c s s']
  show ?thesis by (simp add: step_def hist_def)
next
  case CallClose
  with assms show ?thesis by (simp add: quiet_def)
next
  case Consume
  with assms show ?thesis
    by (auto simp: step_def consume_def chan_recv_def hist_def split: list.splits if_splits)
next
  case (Notify n)
  with assms show ?thesis by (cases "subscribed s") (auto simp: step_def hist_def)
next
  case (Insert r)
  with assms show ?thesis by (simp add: quiet_def)
qed

lemma hist_exec:
  assumes "exec env sched s = Some s'" "list_all quiet sched" "db_Query env = healthy_Query"
    and "hist p tbl k db s" "idle_listener s" "coherent s"
  shows "hist p tbl k db s'"
  using assms
proof (induction sched arbitrary: s)
  case Nil
  then show ?case by simp
next
  case (Cons a sched)
  from Cons.prems(1) obtain s1 where s1: "step env a s = Some s1" "exec env sched s1 = Some s'"
    by (auto split: option.splits)
  from Cons.prems(2) have q: "quiet a" "list_all quiet sched" by simp_all
  have "hist p tbl k db s1"
    using hist_step [OF Cons.prems(4) s1(1) q(1) Cons.prems(3,5,6)] .
  moreover have "idle_listener s1"
    using idle_step [OF Cons.prems(5) s1(1) Cons.prems(6)] .
  moreover have "coherent s1"
    using coherent_step [OF Cons.prems(6) s1(1)] .
  ultimately show ?case
    using Cons.IH [OF s1(2) q(2) Cons.prems(3)] by blast
qed

lemma map_Inr_prefix:
  assumes "map Inr ex = map Inr sent @ (rest :: ('e + 'a) list)"
  shows "take (length sent) ex = sent"
proof -
  from assms have "take (length sent) (map Inr ex) = (map Inr sent :: ('e + 'a) list)" by simp
  then have "map Inr (take (length sent) ex) = (map Inr sent :: ('e + 'a) list)"
    by (simp add: take_map)
  then show ?thesis by (simp add: inj_map_eq_map [OF inj_Inr])
qed

lemma sel_hist_prefix: "sel_hist q ex sent pc \<Longrightarrow> take (length sent) ex = sent"
  by (cases pc) (auto dest: map_Inr_prefix)

lemma buf_empty_update: "buf c = [] \<Longrightarrow> c\<lparr>buf := []\<rparr> = c"
  by (cases c) simp

lemma send_consume_step:
  assumes "spc s = SelNext cur" "pending cur = Inr r # rest"
    and "\<not> closed (C s)" "buf (C s) = []" "0 < cap (C s)"
  shows "exec env [Sel Proceed, Sel SendCase, Consume] s =
           Some (s\<lparr>received := received s @ [r], spc := SelNext (cur\<lparr>pending := rest\<rparr>)\<rparr>)"
proof -
  have "exec env [Sel Proceed, Sel SendCase, Consume] s =
           Some (s\<lparr>C := (C s)\<lparr>buf := []\<rparr>, received := received s @ [r],
                   spc := SelNext (cur\<lparr>pending := rest\<rparr>)\<rparr>)"
    using assms by (simp add: step_def sel_step_def chan_send_def consume_def chan_recv_def)
  then show ?thesis using assms(4) by (simp add: buf_empty_update)
qed

lemma send_consume_all:
  assumes "spc s = SelNext cur" "pending cur = map Inr rs @ rest"
    and "\<not> closed (C s)" "buf (C s) = []" "0 < cap (C s)"
  shows "exec env (concat (replicate (length rs) [Sel Proceed, Sel SendCase, Consume])) s =
           Some (s\<lparr>received := received s @ rs, spc := SelNext (cur\<lparr>pending := rest\<rparr>)\<rparr>)"
  using assms
proof (induction rs arbitrary: s cur)
  case Nil
  then show ?case by simp
next
  case (Cons r rs)
  let ?s1 = "s\<lparr>received := received s @ [r], spc := SelNext (cur\<lparr>pending := map Inr rs @ rest\<rparr>)\<rparr>"
  have 1: "exec env [Sel Proceed, Sel SendCase, Consume] s = Some ?s1"
    using Cons.prems by (intro send_consume_step) auto
  have 2: "exec env (concat (replicate (length rs) [Sel Proceed, Sel SendCase, Consume])) ?s1 =
      Some (?s1\<lparr>received := received ?s1 @ rs,
                 spc := SelNext ((cur\<lparr>pending := map Inr rs @ rest\<rparr>)\<lparr>pending := rest\<rparr>)\<rparr>)"
    using Cons.prems by (intro Cons.IH) auto
  have 3: "concat (replicate (length (r # rs)) [Sel Proceed, Sel SendCase, Consume]) =
           [Sel Proceed, Sel SendCase, Consume] @
           concat (replicate (length rs) [Sel Proceed, Sel SendCase, Consume])"
    by simp
  have "exec env (concat (replicate (length (r # rs)) [Sel Proceed, Sel SendCase, Consume])) s =
        exec env (concat (replicate (length rs) [Sel Proceed, Sel SendCase, Consume])) ?s1"
    unfolding 3 exec_append 1 by simp
  also note 2
  finally show ?case by simp
qed

lemma drain_all_run:
  assumes "\<not> Updates flt" "Sqlizer flt = Inr p" "db_Query env = healthy_Query"
  shows "exec env (drain_all (length (expected_rows p (Offset flt) (db tbl)))) (Get db tbl flt) =
           Some ((Get db tbl flt)
             \<lparr>C := \<lparr>buf = [], cap = 1024, closed = True\<rparr>,
              backlog := \<lparr>buf = [], cap = 1024, closed = True\<rparr>,
              lpc := LisExited, spc := SelExited,
              received := expected_rows p (Offset flt) (db tbl)\<rparr>)"
proof -
  let ?ex = "expected_rows p (Offset flt) (db tbl)"
  let ?g = "Get db tbl flt"
  let ?cur = "\<lparr>pending = map Inr ?ex, final_err = None\<rparr>"
  let ?s1 = "?g\<lparr>backlog := \<lparr>buf = [], cap = 1024, closed = True\<rparr>, lpc := LisExited,
                 spc := SelNext ?cur\<rparr>"
  let ?s2 = "?s1\<lparr>received := received ?s1 @ ?ex, spc := SelNext (?cur\<lparr>pending := []\<rparr>)\<rparr>"
  have ex: "run_select db (history_stmt tbl p (Offset flt)) = ?ex"
    by (simp add: run_select_def history_stmt_def expected_rows_def)
  have 1: "exec env [Lis Proceed, Lis Proceed, Sel Proceed, Sel Proceed] ?g = Some ?s1"
    using assms ex
    by (simp add: Get_def make_chan_def step_def lis_step_def sel_step_def chan_close_def
                  select_ToSql_def healthy_Query_def history_stmt_def)
  have 2: "exec env (concat (replicate (length ?ex) [Sel Proceed, Sel SendCase, Consume])) ?s1 =
             Some ?s2"
    by (intro send_consume_all) (simp_all add: Get_def make_chan_def)
  have 3: "exec env [Sel Proceed, Sel Proceed, Sel Proceed] ?s2 =
           Some (?g\<lparr>C := \<lparr>buf = [], cap = 1024, closed = True\<rparr>,
              backlog := \<lparr>buf = [], cap = 1024, closed = True\<rparr>,
              lpc := LisExited, spc := SelExited, received := ?ex\<rparr>)"
    by (simp add: Get_def make_chan_def step_def sel_step_def chan_recv_def chan_close_def)
  show ?thesis
    unfolding drain_all_def
    by (rule exec_append_Some [OF 1], rule exec_append_Some [OF 2], rule 3)
qed

lemma quiet_drain_all: "list_all quiet (drain_all n)"
  by (induction n) (simp_all add: drain_all_def quiet_def)

lemma expected_rows_ascending:
  assumes "distinct (map ID rows)"
  shows "sorted_wrt (<) (map ID (expected_rows p k rows))"
proof -
  let ?xs = "sort_key ID (filter p rows)"
  from assms have "distinct (map ID (filter p rows))"
    by (simp add: distinct_map_filter)
  then have "distinct (map ID ?xs)"
    by (simp add: distinct_map inj_on_def)
  moreover have "sorted (map ID ?xs)"
    by (rule sorted_sort_key)
  ultimately have "sorted_wrt (<) (map ID ?xs)"
    by (simp add: strict_sorted_iff)
  then have "sorted_wrt (<) (drop (unat k) (map ID ?xs))"
    by (rule sorted_wrt_drop)
  then show ?thesis by (simp add: expected_rows_def drop_map)
qed

lemma sel_step_decreases:
  assumes "hist p tbl k db s" "sel_step env c s = Some s'"
    and "db_Query env = healthy_Query" "idle_listener s" "coherent s"
  shows "steps_left (length (run_select db (history_stmt tbl p k))) s' <
         steps_left (length (run_select db (history_stmt tbl p k))) s"
proof (cases "spc s")
  case SelStart
  with assms show ?thesis
    by (cases c) (auto simp: hist_def steps_left_def sel_step_def select_ToSql_def)
next
  case (SelQuery q)
  with assms show ?thesis
    by (cases c) (auto simp: hist_def steps_left_def sel_step_def healthy_Query_def)
next
  case (SelNext cur)
  with assms show ?thesis
    by (cases c; cases "pending cur")
       (auto simp: hist_def steps_left_def sel_step_def sel_fail_def map_Inr_no_Inl map_Inr_no_Inl2
             split: sum.splits option.splits)
next
  case (SelSend row cur)
  with assms show ?thesis
    by (cases c)
       (auto simp: hist_def steps_left_def sel_step_def chan_send_def done_ready_def chan_recv_def
                   coherent_def
             split: if_splits)
next
  case SelDrain
  with assms show ?thesis
    by (cases c)
       (auto simp: hist_def steps_left_def sel_step_def chan_recv_def idle_listener_def
             split: if_splits)
next
  case (SelDrainSend row)
  with assms show ?thesis by (simp add: hist_def)
next
  case SelReturn
  with assms show ?thesis
    by (cases c)
       (auto simp: hist_def steps_left_def sel_step_def chan_close_def coherent_def split: if_splits)
next
  case SelExited
  with assms show ?thesis by (simp add: sel_step_def)
next
  case SelPanicked
  with assms show ?thesis by (simp add: hist_def)
qed

lemma move_decreases:
  assumes "hist p tbl k db s" "step env a s = Some s'" "is_move a"
    and "db_Query env = healthy_Query" "idle_listener s" "coherent s"
  shows "steps_left (length (run_select db (history_stmt tbl p k))) s' <
         steps_left (length (run_select db (history_stmt tbl p k))) s"
proof (cases a)
  case (Sel c)
  with assms sel_step_decreases [of p tbl k db s env c s'] show ?thesis by (simp add: step_def)
next
  case (Lis c)
  with assms idle_listener_moves [OF assms(5,6), of env c] show ?thesis
    by (auto simp: step_def steps_left_def split: if_splits)
next
  case Consume
  with assms show ?thesis
    by (auto simp: step_def consume_def chan_recv_def steps_left_def split: list.splits if_splits)
qed (use assms in \<open>simp_all add: is_move_def\<close>)

lemma scan_progress:
  assumes "hist p tbl k db s" "db_Query env = healthy_Query" "idle_listener s" "coherent s"
  shows "(closed (C s) \<and> buf (C s) = []) \<or>
         step env (Sel Proceed) s \<noteq> None \<or> step env (Sel SendCase) s \<noteq> None \<or>
         step env (Lis Proceed) s \<noteq> None \<or> step env Consume s \<noteq> None"
proof (cases "spc s")
  case SelStart
  with assms show ?thesis by (simp add: step_def sel_step_def hist_def select_ToSql_def)
next
  case (SelQuery q)
  with assms show ?thesis by (simp add: step_def sel_step_def hist_def healthy_Query_def)
next
  case (SelNext cur)
  with assms show ?thesis
    by (simp add: step_def sel_step_def split: list.splits sum.splits option.splits)
next
  case (SelSend row cur)
  with assms show ?thesis
    by (cases "buf (C s)")
       (auto simp: step_def sel_step_def chan_send_def consume_def chan_recv_def coherent_def)
next
  case SelDrain
  with assms idle_listener_moves [OF assms(3,4), of env Proceed] show ?thesis
    by (auto simp: step_def sel_step_def chan_recv_def idle_listener_def coherent_def)
next
  case (SelDrainSend row)
  with assms show ?thesis by (simp add: hist_def)
next
  case SelReturn
  with assms show ?thesis by (simp add: step_def sel_return_closes)
next
  case SelExited
  with assms show ?thesis
    by (cases "buf (C s)") (auto simp: step_def consume_def chan_recv_def coherent_def)
next
  case SelPanicked
  with assms show ?thesis by (simp add: hist_def)
qed

section \<open>\<^verbatim>\<open>Close\<close>\<close>

lemma Close_funpow: "((\<lambda>t. snd (Close t)) ^^ Suc n) s = snd (Close s)"
  by (induction n) (simp_all add: Close_eq)

text \<open>
  Claim C4.  \<^verbatim>\<open>Close\<close> never raises: no panic leaves the call in any state.  It requests
  cancellation exactly once: the call closes \<^verbatim>\<open>done\<close> and changes nothing else, and a
  second call, or any number of further calls, leaves the state as the first call left
  it.  It does not block: the call is possible in every state, whatever the two
  goroutines are doing, and it does not move them.
\<close>

theorem Close_idempotent_never_raises:
  "fst (Close s) = None \<and>
   snd (Close s) = s\<lparr>done_ch := (done_ch s)\<lparr>closed := True\<rparr>\<rparr> \<and>
   Close (snd (Close s)) = (None, snd (Close s)) \<and>
   ((\<lambda>t. snd (Close t)) ^^ Suc n) s = snd (Close s) \<and>
   step env CallClose s = Some (snd (Close s)) \<and>
   lpc (snd (Close s)) = lpc s \<and> spc (snd (Close s)) = spc s"
  using Close_funpow [of n s] by (simp add: Close_eq step_def)

section \<open>\<^verbatim>\<open>Add\<close> and its error paths\<close>

text \<open>
  Claim C10 as stated fails where the store refuses the insert: serializing and building
  succeed, yet \<^verbatim>\<open>Add\<close> returns an error, and no row has been inserted whose id it could
  return.
\<close>

theorem Add_refused_counterexample:
  "Add marshal_text refusing_insert one_row ''events'' (Some ''[1]'') =
     ((0, Some (OtherError ''connection refused'')), one_row)"
  by (simp add: Add_def marshal_text_def insert_ToSql_def refusing_insert_def)

text \<open>
  Claim C10, amended.  If serializing the document fails, or building the insert
  statement fails, \<^verbatim>\<open>Add\<close> returns ID 0 with that error and the database is untouched,
  whatever the store would have done.  Otherwise it runs the statement
  \<^verbatim>\<open>INSERT INTO table (data) VALUES (encoding) RETURNING id\<close> with \<^verbatim>\<open>id\<close> set to 0 and
  returns \<^verbatim>\<open>id\<close> and the error exactly as \<^verbatim>\<open>Scan\<close> left them: the id assigned by the
  store and no error when the store succeeds, and the store's error when it fails.
\<close>

theorem Add_outcomes:
  "(json_Marshal v = Inl e \<longrightarrow>
      Add json_Marshal db_QueryRow_Scan db tbl v = ((0, Some e), db)) \<and>
   (json_Marshal v = Inr d \<and> insert_ToSql tbl [''data''] [d] ''RETURNING id'' = Inl e \<longrightarrow>
      Add json_Marshal db_QueryRow_Scan db tbl v = ((0, Some e), db)) \<and>
   (json_Marshal v = Inr d \<and> tbl \<noteq> [] \<longrightarrow>
      insert_ToSql tbl [''data''] [d] ''RETURNING id'' =
        Inr \<lparr>into_table = tbl, into_columns = [''data''], row_values = [d],
             suffix = ''RETURNING id''\<rparr>) \<and>
   (json_Marshal v = Inr d \<and> insert_ToSql tbl [''data''] [d] ''RETURNING id'' = Inr q \<longrightarrow>
      Add json_Marshal db_QueryRow_Scan db tbl v = db_QueryRow_Scan db q 0) \<and>
   (json_Marshal v = Inr d \<and> insert_ToSql tbl [''data''] [d] ''RETURNING id'' = Inr q \<and>
    db_QueryRow_Scan db q 0 = ((i, None), db') \<longrightarrow>
      Add json_Marshal db_QueryRow_Scan db tbl v = ((i, None), db')) \<and>
   (json_Marshal v = Inr d \<and> insert_ToSql tbl [''data''] [d] ''RETURNING id'' = Inr q \<and>
    db_QueryRow_Scan db q 0 = ((i, Some e), db') \<longrightarrow>
      Add json_Marshal db_QueryRow_Scan db tbl v = ((i, Some e), db'))"
  by (auto simp: Add_def insert_ToSql_def split: prod.splits)

theorem Add_outcomes_witness:
  "marshal_text None = Inl (OtherError ''json: unsupported type'') \<and>
   Add marshal_text serial_insert one_row ''events'' None =
     ((0, Some (OtherError ''json: unsupported type'')), one_row) \<and>
   marshal_text (Some ''[1]'') = Inr ''[1]'' \<and>
   insert_ToSql [] [''data''] [''[1]''] ''RETURNING id'' =
     Inl (OtherError ''insert statements must specify a table'') \<and>
   Add marshal_text serial_insert one_row [] (Some ''[1]'') =
     ((0, Some (OtherError ''insert statements must specify a table'')), one_row) \<and>
   serial_insert one_row \<lparr>into_table = ''events'', into_columns = [''data''],
       row_values = [''[1]''], suffix = ''RETURNING id''\<rparr> 0 =
     ((2, None), one_row(''events'' := [\<lparr>ID = 1, Data = ''{}''\<rparr>, \<lparr>ID = 2, Data = ''[1]''\<rparr>])) \<and>
   Add marshal_text serial_insert one_row ''events'' (Some ''[1]'') =
     ((2, None), one_row(''events'' := [\<lparr>ID = 1, Data = ''{}''\<rparr>, \<lparr>ID = 2, Data = ''[1]''\<rparr>])) \<and>
   Add marshal_text refusing_insert one_row ''events'' (Some ''[1]'') =
     ((0, Some (OtherError ''connection refused'')), one_row) \<and>
   Add marshal_text close_failing_insert one_row ''events'' (Some ''[1]'') =
     ((2, Some (OtherError ''close failed'')),
      one_row(''events'' := [\<lparr>ID = 1, Data = ''{}''\<rparr>, \<lparr>ID = 2, Data = ''[1]''\<rparr>]))"
proof -
  let ?d = "''[1]''"
  let ?q = "\<lparr>into_table = ''events'', into_columns = [''data''], row_values = [?d],
             suffix = ''RETURNING id''\<rparr>"
  let ?db' = "one_row(''events'' := [\<lparr>ID = 1, Data = ''{}''\<rparr>, \<lparr>ID = 2, Data = ?d\<rparr>])"
  have m0: "marshal_text None = Inl (OtherError ''json: unsupported type'')"
    by (simp add: marshal_text_def)
  have m1: "marshal_text (Some ?d) = Inr ?d"
    by (simp add: marshal_text_def)
  have b0: "insert_ToSql [] [''data''] [?d] ''RETURNING id'' =
              Inl (OtherError ''insert statements must specify a table'')"
    by (simp add: insert_ToSql_def)
  have b1: "insert_ToSql ''events'' [''data''] [?d] ''RETURNING id'' = Inr ?q"
    by (simp add: insert_ToSql_def)
  have s: "serial_insert one_row ?q 0 = ((2, None), ?db')"
    by (simp add: serial_insert_def one_row_def Let_def)
  have r: "refusing_insert one_row ?q 0 = ((0, Some (OtherError ''connection refused'')), one_row)"
    by (simp add: refusing_insert_def)
  have c: "close_failing_insert one_row ?q 0 = ((2, Some (OtherError ''close failed'')), ?db')"
    by (simp add: close_failing_insert_def s)
  note t1 = Add_outcomes [of marshal_text None "OtherError ''json: unsupported type''"
      serial_insert one_row "''events''"]
  note t2 = Add_outcomes [of marshal_text "Some ?d" "OtherError ''insert statements must specify a table''"
      serial_insert one_row "[]" ?d]
  note t3 = Add_outcomes [of marshal_text "Some ?d" _ serial_insert one_row "''events''" ?d ?q 2 ?db']
  note t4 = Add_outcomes [of marshal_text "Some ?d" "OtherError ''connection refused''"
      refusing_insert one_row "''events''" ?d ?q 0 one_row]
  note t5 = Add_outcomes [of marshal_text "Some ?d" "OtherError ''close failed''"
      close_failing_insert one_row "''events''" ?d ?q 2 ?db']
  from t1 m0 have 1: "Add marshal_text serial_insert one_row ''events'' None =
     ((0, Some (OtherError ''json: unsupported type'')), one_row)" by blast
  from t2 m1 b0 have 2: "Add marshal_text serial_insert one_row [] (Some ?d) =
     ((0, Some (OtherError ''insert statements must specify a table'')), one_row)" by blast
  from t3 m1 b1 s have 3: "Add marshal_text serial_insert one_row ''events'' (Some ?d) = ((2, None), ?db')"
    by blast
  from t4 m1 b1 r have 4: "Add marshal_text refusing_insert one_row ''events'' (Some ?d) =
     ((0, Some (OtherError ''connection refused'')), one_row)" by blast
  from t5 m1 b1 c have 5: "Add marshal_text close_failing_insert one_row ''events'' (Some ?d) =
     ((2, Some (OtherError ''close failed'')), ?db')" by blast
  from m0 1 m1 b0 2 s 3 4 5 show ?thesis by blast
qed

section \<open>Malformed notification payloads\<close>

lemma parse_uint_non_digit:
  "\<not> list_all is_digit ds \<Longrightarrow> \<exists>e. parse_uint s0 n ds = Inl e"
  by (induction ds arbitrary: n) (auto simp: Let_def)

lemma Atoi_malformed:
  assumes "\<not> decimal_int_string s"
  shows "\<exists>e. Atoi s = Inl e"
proof (cases s)
  case Nil
  then show ?thesis by (simp add: Atoi_def)
next
  case (Cons c cs)
  show ?thesis
  proof (cases "c = CHR ''-'' \<or> c = CHR ''+''")
    case True
    with assms Cons have "cs = [] \<or> \<not> list_all is_digit cs"
      by (auto simp: decimal_int_string_def)
    then show ?thesis
    proof
      assume "cs = []"
      with Cons True show ?thesis by (auto simp: Atoi_def)
    next
      assume "\<not> list_all is_digit cs"
      then obtain e where "parse_uint s 0 cs = Inl e"
        using parse_uint_non_digit by blast
      with Cons True show ?thesis by (auto simp: Atoi_def Let_def)
    qed
  next
    case False
    with assms Cons have "\<not> list_all is_digit s"
      by (auto simp: decimal_int_string_def)
    then obtain e where "parse_uint s 0 s = Inl e"
      using parse_uint_non_digit by blast
    with Cons False show ?thesis by (auto simp: Atoi_def Let_def)
  qed
qed

text \<open>
  Claim C5.  In any state the cursor can reach, when the listener holds a notification
  whose payload is not a decimal integer string, \<^verbatim>\<open>strconv.Atoi\<close> fails, the listener's
  next step stores that error in \<^verbatim>\<open>Err\<close> and returns, its step after that closes the
  backlog (and the subscription), and then the listener has no further step.
\<close>

theorem malformed_payload_is_terminal:
  assumes "exec env sched (Get db tbl flt) = Some s"
    and "lpc s = LisGot payload"
    and "\<not> decimal_int_string payload"
  shows "\<exists>e. Atoi payload = Inl e \<and>
             lis_step env Proceed s = Some (s\<lparr>Err := Some e, lpc := LisReturn\<rparr>) \<and>
             lis_step env Proceed (s\<lparr>Err := Some e, lpc := LisReturn\<rparr>) =
               Some (s\<lparr>Err := Some e, backlog := (backlog s)\<lparr>closed := True\<rparr>,
                       subscribed := False, lpc := LisExited\<rparr>) \<and>
             (\<forall>c. lis_step env c
                    (s\<lparr>Err := Some e, backlog := (backlog s)\<lparr>closed := True\<rparr>,
                       subscribed := False, lpc := LisExited\<rparr>) = None)"
proof -
  obtain e where e: "Atoi payload = Inl e"
    using Atoi_malformed [OF assms(3)] by blast
  have coh: "coherent s"
    using coherent_exec [OF coherent_Get assms(1)] .
  have 1: "lis_step env Proceed s = Some (s\<lparr>Err := Some e, lpc := LisReturn\<rparr>)"
    using assms(2) e by (simp add: lis_step_def lis_fail_def)
  have "coherent (s\<lparr>Err := Some e, lpc := LisReturn\<rparr>)"
    using coh 1 coherent_lis_step by blast
  then have 2: "lis_step env Proceed (s\<lparr>Err := Some e, lpc := LisReturn\<rparr>) =
               Some (s\<lparr>Err := Some e, backlog := (backlog s)\<lparr>closed := True\<rparr>,
                       subscribed := False, lpc := LisExited\<rparr>)"
    by (simp add: lis_return_closes)
  have 3: "\<forall>c. lis_step env c
                    (s\<lparr>Err := Some e, backlog := (backlog s)\<lparr>closed := True\<rparr>,
                       subscribed := False, lpc := LisExited\<rparr>) = None"
    by (simp add: lis_step_def)
  from e 1 2 3 show ?thesis by blast
qed

theorem malformed_payload_is_terminal_witness:
  "exec env_ok [Lis Proceed, Notify ''abc'', Lis NotifyCase] (Get (\<lambda>t. []) ''t'' live_all) =
     Some ((Get (\<lambda>t. []) ''t'' live_all)\<lparr>subscribed := True, lpc := LisGot ''abc''\<rparr>) \<and>
   \<not> decimal_int_string ''abc'' \<and>
   lis_step env_ok Proceed ((Get (\<lambda>t. []) ''t'' live_all)\<lparr>subscribed := True, lpc := LisGot ''abc''\<rparr>) =
     Some ((Get (\<lambda>t. []) ''t'' live_all)
             \<lparr>subscribed := True, lpc := LisGot ''abc'', Err := Some (ErrSyntax ''abc''), lpc := LisReturn\<rparr>)"
proof -
  let ?s = "(Get (\<lambda>t. []) ''t'' live_all)\<lparr>subscribed := True, lpc := LisGot ''abc''\<rparr>"
  have r: "exec env_ok [Lis Proceed, Notify ''abc'', Lis NotifyCase] (Get (\<lambda>t. []) ''t'' live_all) = Some ?s"
    by (simp add: run_simps env_ok_def live_all_def)
  have p: "lpc ?s = LisGot ''abc''" by simp
  have d: "\<not> decimal_int_string ''abc''" by (simp add: decimal_int_string_def is_digit_def)
  have a: "Atoi ''abc'' = Inl (ErrSyntax ''abc'')" by (simp add: Atoi_def is_digit_def)
  from malformed_payload_is_terminal [OF r p d, of ] a r d show ?thesis by auto
qed

section \<open>The drain loop and cancellation\<close>

lemma drain_send_blocked:
  assumes "spc s = SelDrainSend row" "\<not> closed (C s)" "cap (C s) \<le> length (buf (C s))"
  shows "sel_step env c s = None"
  using assms by (cases c) (simp_all add: sel_step_def chan_send_def)

lemma blocked_step:
  assumes "spc s = SelDrainSend row" "\<not> closed (C s)" "cap (C s) \<le> length (buf (C s))"
    and "step env a s = Some s'" "a \<noteq> Consume"
  shows "spc s' = SelDrainSend row \<and> C s' = C s \<and> (\<forall>c. a \<noteq> Sel c)"
proof (cases a)
  case (Sel c)
  with assms drain_send_blocked [OF assms(1-3), of env c] show ?thesis by (simp add: step_def)
next
  case (Lis c)
  with assms lis_step_frame [of env c s s'] show ?thesis by (simp add: step_def)
next
  case CallClose
  with assms show ?thesis by (auto simp: step_def Close_def split: sum.splits)
next
  case Consume
  with assms show ?thesis by simp
next
  case (Notify p)
  with assms show ?thesis by (auto simp: step_def)
next
  case (Insert r)
  with assms show ?thesis by (auto simp: step_def)
qed

lemma blocked_exec:
  assumes "exec env acts s = Some s'" "Consume \<notin> set acts"
    and "spc s = SelDrainSend row" "\<not> closed (C s)" "cap (C s) \<le> length (buf (C s))"
  shows "spc s' = SelDrainSend row \<and> C s' = C s \<and> (\<forall>c. Sel c \<notin> set acts)"
  using assms
proof (induction acts arbitrary: s)
  case Nil
  then show ?case by simp
next
  case (Cons a acts)
  from Cons.prems(1) obtain s1 where s1: "step env a s = Some s1" "exec env acts s1 = Some s'"
    by (auto split: option.splits)
  from Cons.prems(2) have na: "a \<noteq> Consume" "Consume \<notin> set acts" by auto
  from blocked_step [OF Cons.prems(3-5) s1(1) na(1)]
  have b: "spc s1 = SelDrainSend row" "C s1 = C s" "\<forall>c. a \<noteq> Sel c" by auto
  from Cons.IH [OF s1(2) na(2) b(1)] Cons.prems(4,5) b(2)
  have "spc s' = SelDrainSend row \<and> C s' = C s1 \<and> (\<forall>c. Sel c \<notin> set acts)" by simp
  with b show ?case by auto
qed

lemma length_rows_upto: "length (rows_upto n) = n"
  by (simp add: rows_upto_def)

lemma ID_rows_upto: "r \<in> set (rows_upto n) \<Longrightarrow> 1 \<le> ID r \<and> ID r \<le> int n"
  by (auto simp: rows_upto_def)

lemma sorted_rows_upto: "sorted (map ID (rows_upto n))"
proof -
  have "sorted_wrt (\<lambda>x y. int x \<le> int y) [1..<Suc n]"
    by (rule sorted_wrt_mono_rel [OF _ sorted_wrt_upt]) simp
  then show ?thesis
    by (simp add: rows_upto_def comp_def sorted_map del: upt_Suc)
qed

lemma Atoi_1025: "Atoi ''1025'' = Inr 1025"
  by (simp add: Atoi_def is_digit_def digit_val_def)

lemma run_select_history:
  "run_select full_table \<lparr>columns = cols, from_table = t, where_clause = (\<lambda>r. True),
      order_bys = [''id''], offset_clause = Some 0\<rparr> = rows_upto 1024"
  by (simp add: run_select_def full_table_def sort_key_id_if_sorted sorted_rows_upto)

lemma run_select_late:
  "run_select (full_table(''t'' := full_table ''t'' @ [late_row]))
     \<lparr>columns = cols, from_table = ''t'', where_clause = (\<lambda>r. ID r = 1025),
      order_bys = [''id''], offset_clause = None\<rparr> = [late_row]"
proof -
  have "filter (\<lambda>r. ID r = 1025) (rows_upto 1024) = []"
    using ID_rows_upto [of _ 1024] by (fastforce simp: filter_empty_conv)
  then show ?thesis by (simp add: run_select_def late_row_def full_table_def)
qed

lemma reach_blocked: "exec env_ok sched_fill (Get full_table ''t'' live_all) = Some blocked_state"
proof -
  let ?s0 = "Get full_table ''t'' live_all"
  let ?s1 = "?s0\<lparr>subscribed := True, lpc := LisWait,
                   spc := SelNext \<lparr>pending = map Inr (rows_upto 1024), final_err = None\<rparr>\<rparr>"
  let ?s2 = "?s1\<lparr>C := (C ?s1)\<lparr>buf := buf (C ?s1) @ rows_upto 1024\<rparr>,
                   spc := SelNext (\<lparr>pending = map Inr (rows_upto 1024), final_err = None\<rparr>\<lparr>pending := []\<rparr>)\<rparr>"
  have 1: "exec env_ok [Lis Proceed, Sel Proceed, Sel Proceed] ?s0 = Some ?s1"
    by (simp add: move_simps env_ok_def live_all_def run_select_history)
  have 2: "exec env_ok (fill 1024) ?s1 = Some ?s2"
    using fill_history [of ?s1 "\<lparr>pending = map Inr (rows_upto 1024), final_err = None\<rparr>"
                           "rows_upto 1024" "[]" env_ok]
    by (simp add: length_rows_upto Get_def make_chan_def)
  have 3: "exec env_ok [Sel Proceed, Insert late_row, Notify ''1025'', Lis NotifyCase, Lis Proceed,
              Lis Proceed, Lis Proceed, Lis SendCase, Sel Proceed] ?s2 = Some blocked_state"
    by (simp add: move_simps env_ok_def live_all_def Atoi_1025 run_select_late blocked_state_def)
  show ?thesis
    unfolding sched_fill_def
    by (rule exec_append_Some [OF 1], rule exec_append_Some [OF 2], rule 3)
qed

text \<open>
  Claim C2.  The drain loop's send \<^verbatim>\<open>r.C <- row\<close> is a plain send, not a \<^verbatim>\<open>select\<close>
  with a \<^verbatim>\<open>done\<close> case.  In any state the cursor can reach in which that send waits on
  a full output queue, \<^verbatim>\<open>selectloop\<close> has no step after \<^verbatim>\<open>Close\<close>, and whatever
  happens afterwards, short of the consumer taking a row, it stays at that send: it
  never aborts and the output queue is never closed.
\<close>

theorem drain_send_ignores_cancellation:
  assumes "exec env sched (Get db tbl flt) = Some s"
    and "spc s = SelDrainSend row"
    and "length (buf (C s)) = 1024"
    and "exec env later (snd (Close s)) = Some s'"
    and "Consume \<notin> set later"
  shows "closed (done_ch (snd (Close s))) \<and>
         (\<forall>c. sel_step env c (snd (Close s)) = None) \<and>
         (\<forall>c. Sel c \<notin> set later) \<and>
         spc s' = SelDrainSend row \<and> \<not> closed (C s') \<and>
         (\<forall>c. sel_step env c s' = None)"
proof -
  let ?t = "snd (Close s)"
  have coh: "coherent s"
    using coherent_exec [OF coherent_Get assms(1)] .
  have t: "?t = s\<lparr>done_ch := (done_ch s)\<lparr>closed := True\<rparr>\<rparr>"
    by (simp add: Close_eq)
  have open_C: "\<not> closed (C s)" and full: "cap (C s) \<le> length (buf (C s))"
    using coh assms(2,3) by (simp_all add: coherent_def)
  have b: "spc ?t = SelDrainSend row" "\<not> closed (C ?t)" "cap (C ?t) \<le> length (buf (C ?t))"
    using assms(2) open_C full by (simp_all add: t)
  from blocked_exec [OF assms(4,5) b]
  have s': "spc s' = SelDrainSend row" "C s' = C ?t" "\<forall>c. Sel c \<notin> set later"
    by auto
  have b': "\<not> closed (C s')" "cap (C s') \<le> length (buf (C s'))"
    using s'(2) b(2,3) by simp_all
  show ?thesis
    using drain_send_blocked [OF b] drain_send_blocked [OF s'(1) b'] s' b'(1)
    by (simp add: t)
qed

theorem drain_send_ignores_cancellation_witness:
  "exec env_ok sched_fill (Get full_table ''t'' live_all) = Some blocked_state \<and>
   spc blocked_state = SelDrainSend late_row \<and>
   length (buf (C blocked_state)) = 1024 \<and>
   exec env_ok [Lis Proceed, Lis DoneCase, Lis Proceed, CallClose] (snd (Close blocked_state)) =
     Some hung_state \<and>
   closed (done_ch hung_state) \<and> closed (backlog hung_state) \<and> lpc hung_state = LisExited \<and>
   spc hung_state = SelDrainSend late_row \<and> \<not> closed (C hung_state) \<and>
   (\<forall>c. sel_step env_ok c hung_state = None)"
proof -
  have 1: "spc blocked_state = SelDrainSend late_row"
    by (simp add: blocked_state_def)
  have 2: "length (buf (C blocked_state)) = 1024"
    by (simp add: blocked_state_def length_rows_upto)
  have 3: "exec env_ok [Lis Proceed, Lis DoneCase, Lis Proceed, CallClose] (snd (Close blocked_state)) =
     Some hung_state"
    by (simp add: move_simps blocked_state_def hung_state_def env_ok_def)
  have 4: "Consume \<notin> set [Lis Proceed, Lis DoneCase, Lis Proceed, CallClose]"
    by simp
  have 5: "closed (done_ch hung_state) \<and> closed (backlog hung_state) \<and> lpc hung_state = LisExited"
    by (simp add: hung_state_def)
  from drain_send_ignores_cancellation [OF reach_blocked 1 2 3 4] reach_blocked 1 2 3 5
  show ?thesis by simp
qed

section \<open>The error slot\<close>







section \<open>Cancellation is not an error\<close>

lemma clean_Get: "\<not> isl (Sqlizer flt) \<Longrightarrow> clean (Get db tbl flt)"
  by (simp add: clean_def Get_def)

lemma clean_sel_step:
  assumes "clean s" "sel_step env_ok c s = Some s'"
  shows "clean s'"
  using assms
  by (cases "spc s"; cases c)
     (auto simp: clean_def sel_step_def sel_fail_def env_ok_def select_ToSql_def clean_cursor_def
                 healthy_Query_def list_all_iff
           split: sum.splits list.splits option.splits if_splits attempt.splits prod.splits)

lemma And_parts_Inl: "And_parts [Eq_id i, w] = Inl e \<Longrightarrow> w = Inl e"
  by (cases w) (simp_all add: Eq_id_def)

lemma clean_lis_step:
  assumes "clean s" "lis_step env_ok c s = Some s'"
  shows "clean s'"
  using assms
  by (cases "lpc s"; cases c)
     (auto simp: clean_def lis_step_def lis_fail_def env_ok_def select_ToSql_def clean_cursor_def
                 healthy_Query_def list_all_iff
           dest: And_parts_Inl
           split: sum.splits list.splits option.splits if_splits attempt.splits prod.splits)

lemma clean_step:
  assumes "clean s" "step env_ok a s = Some s'" "numeric_notification a"
  shows "clean s'"
proof (cases a)
  case (Sel c)
  with assms clean_sel_step [of s c s'] show ?thesis by (simp add: step_def)
next
  case (Lis c)
  with assms clean_lis_step [of s c s'] show ?thesis by (simp add: step_def)
next
  case CallClose
  with assms show ?thesis by (auto simp: step_def Close_eq clean_def)
next
  case Consume
  with assms show ?thesis
    by (auto simp: step_def consume_def chan_recv_def clean_def split: list.splits if_splits)
next
  case (Notify p)
  with assms show ?thesis
    by (auto simp: step_def clean_def numeric_notification_def split: if_splits)
next
  case (Insert r)
  with assms show ?thesis by (auto simp: step_def clean_def)
qed

lemma clean_exec:
  "clean s \<Longrightarrow> exec env_ok sched s = Some s' \<Longrightarrow> list_all numeric_notification sched \<Longrightarrow> clean s'"
  by (induction sched arbitrary: s) (auto split: option.splits dest: clean_step)

text \<open>
  Claim C8.  In every state the cursor can reach: at the \<^verbatim>\<open>select\<close> that sends a
  historical row, and at the one that sends to the backlog, the \<^verbatim>\<open>done\<close> case is ready
  exactly when \<^verbatim>\<open>done\<close> is closed, and taking it only moves the goroutine to its return;
  the return itself only runs the deferred \<^verbatim>\<open>close\<close>.  None of these steps writes \<^verbatim>\<open>Err\<close>.
  And when the store and the listener work, the filter's condition builds and every
  notification payload is a number, \<^verbatim>\<open>Err\<close> is nil in every reachable state, whenever and
  however often \<^verbatim>\<open>Close\<close> was called on the way.
\<close>

theorem cancellation_is_not_an_error:
  assumes "exec env sched (Get db tbl flt) = Some s"
  shows "(spc s = SelSend row cur \<longrightarrow>
            sel_step env DoneCase s =
              (if closed (done_ch s) then Some (s\<lparr>spc := SelReturn\<rparr>) else None)) \<and>
         (lpc s = LisSend row' cur' \<longrightarrow>
            lis_step env DoneCase s =
              (if closed (done_ch s) then Some (s\<lparr>lpc := LisReturn\<rparr>) else None)) \<and>
         (spc s = SelReturn \<longrightarrow>
            sel_step env Proceed s = Some (s\<lparr>C := (C s)\<lparr>closed := True\<rparr>, spc := SelExited\<rparr>)) \<and>
         (lpc s = LisReturn \<longrightarrow>
            lis_step env Proceed s =
              Some (s\<lparr>backlog := (backlog s)\<lparr>closed := True\<rparr>, subscribed := False,
                      lpc := LisExited\<rparr>)) \<and>
         (env = env_ok \<and> \<not> isl (Sqlizer flt) \<and> list_all numeric_notification sched \<longrightarrow>
            Err s = None)"
proof -
  have coh: "coherent s"
    using coherent_exec [OF coherent_Get assms] .
  have 1: "spc s = SelSend row cur \<longrightarrow>
            sel_step env DoneCase s =
              (if closed (done_ch s) then Some (s\<lparr>spc := SelReturn\<rparr>) else None)"
    by (simp add: sel_step_def done_ready_iff [OF coh])
  have 2: "lpc s = LisSend row' cur' \<longrightarrow>
            lis_step env DoneCase s =
              (if closed (done_ch s) then Some (s\<lparr>lpc := LisReturn\<rparr>) else None)"
    by (simp add: lis_step_def done_ready_iff [OF coh])
  have 3: "spc s = SelReturn \<longrightarrow>
            sel_step env Proceed s = Some (s\<lparr>C := (C s)\<lparr>closed := True\<rparr>, spc := SelExited\<rparr>)"
    using sel_return_closes [OF coh] by simp
  have 4: "lpc s = LisReturn \<longrightarrow>
            lis_step env Proceed s =
              Some (s\<lparr>backlog := (backlog s)\<lparr>closed := True\<rparr>, subscribed := False,
                      lpc := LisExited\<rparr>)"
    using lis_return_closes [OF coh] by simp
  have 5: "env = env_ok \<and> \<not> isl (Sqlizer flt) \<and> list_all numeric_notification sched \<longrightarrow>
            Err s = None"
    using clean_exec [OF clean_Get, of flt sched db tbl s] assms by (auto simp: clean_def)
  from 1 2 3 4 5 show ?thesis by blast
qed

theorem cancellation_is_not_an_error_witness:
  "exec env_ok [Lis Proceed, Sel Proceed, Sel Proceed, Sel Proceed, CallClose]
      (Get single_table ''t'' live_all) =
     Some ((Get single_table ''t'' live_all)
        \<lparr>done_ch := \<lparr>buf = [], cap = 0, closed = True\<rparr>, subscribed := True, lpc := LisWait,
         spc := SelSend \<lparr>ID = 1, Data = ''{}''\<rparr> \<lparr>pending = [], final_err = None\<rparr>\<rparr>) \<and>
   sel_step env_ok DoneCase
     ((Get single_table ''t'' live_all)
        \<lparr>done_ch := \<lparr>buf = [], cap = 0, closed = True\<rparr>, subscribed := True, lpc := LisWait,
         spc := SelSend \<lparr>ID = 1, Data = ''{}''\<rparr> \<lparr>pending = [], final_err = None\<rparr>\<rparr>) =
     Some ((Get single_table ''t'' live_all)
        \<lparr>done_ch := \<lparr>buf = [], cap = 0, closed = True\<rparr>, subscribed := True, lpc := LisWait,
         spc := SelReturn\<rparr>) \<and>
   Err ((Get single_table ''t'' live_all)
        \<lparr>done_ch := \<lparr>buf = [], cap = 0, closed = True\<rparr>, subscribed := True, lpc := LisWait,
         spc := SelSend \<lparr>ID = 1, Data = ''{}''\<rparr> \<lparr>pending = [], final_err = None\<rparr>\<rparr>) = None"
proof -
  let ?sched = "[Lis Proceed, Sel Proceed, Sel Proceed, Sel Proceed, CallClose]"
  let ?row = "\<lparr>ID = 1, Data = ''{}''\<rparr>"
  let ?cur = "\<lparr>pending = [], final_err = None\<rparr> :: rows_cursor"
  let ?s = "(Get single_table ''t'' live_all)
        \<lparr>done_ch := \<lparr>buf = [], cap = 0, closed = True\<rparr>, subscribed := True, lpc := LisWait,
         spc := SelSend ?row ?cur\<rparr>"
  have r: "exec env_ok ?sched (Get single_table ''t'' live_all) = Some ?s"
    by (simp add: run_simps env_ok_def live_all_def single_table_def)
  have p: "spc ?s = SelSend ?row ?cur" by simp
  have d: "closed (done_ch ?s)" by simp
  have g: "\<not> isl (Sqlizer live_all)" by (simp add: live_all_def)
  have n: "list_all numeric_notification ?sched" by (simp add: numeric_notification_def)
  from cancellation_is_not_an_error [OF r, of ?row ?cur] p d g n
  have "sel_step env_ok DoneCase ?s = Some (?s\<lparr>spc := SelReturn\<rparr>)" and "Err ?s = None"
    by simp_all
  with r show ?thesis by simp
qed

section \<open>Cursors without live tail\<close>

text \<open>
  Claim C7.  With \<^verbatim>\<open>Updates = false\<close>, in every state the cursor can reach the listener
  is not subscribed and has put nothing into the backlog; all it can ever do is return
  and run the deferred \<^verbatim>\<open>close(r.backlog)\<close>, and it can always do so.  When the
  historical scan has completed normally (\<^verbatim>\<open>selectloop\<close> is at the drain loop), all
  \<^verbatim>\<open>selectloop\<close> can do is leave the loop once the backlog is closed; after the listener's
  remaining steps it does so and closes the output queue.
\<close>

theorem non_live_cursor_stops:
  assumes "\<not> Updates flt"
    and "exec env sched (Get db tbl flt) = Some s"
  shows "\<not> subscribed s \<and> buf (backlog s) = [] \<and> notifyq s = [] \<and>
         (\<forall>c. lis_step env c s =
            (if c \<noteq> Proceed then None
             else if lpc s = LisStart then Some (s\<lparr>lpc := LisReturn\<rparr>)
             else if lpc s = LisReturn then
               Some (s\<lparr>backlog := (backlog s)\<lparr>closed := True\<rparr>, subscribed := False,
                       lpc := LisExited\<rparr>)
             else None)) \<and>
         exec env (listener_rest (lpc s)) s =
           Some (s\<lparr>backlog := (backlog s)\<lparr>closed := True\<rparr>, lpc := LisExited\<rparr>) \<and>
         (spc s = SelDrain \<longrightarrow>
            (\<forall>c. sel_step env c s =
               (if c = Proceed \<and> lpc s = LisExited then Some (s\<lparr>spc := SelReturn\<rparr>) else None)) \<and>
            exec env (listener_rest (lpc s) @ [Sel Proceed, Sel Proceed]) s =
              Some (s\<lparr>backlog := (backlog s)\<lparr>closed := True\<rparr>, lpc := LisExited,
                      C := (C s)\<lparr>closed := True\<rparr>, spc := SelExited\<rparr>))"
proof -
  have coh: "coherent s"
    using coherent_exec [OF coherent_Get assms(2)] .
  have idle: "idle_listener s"
    using idle_exec [OF idle_Get [OF assms(1)] coherent_Get assms(2)] .
  have 1: "\<not> subscribed s \<and> buf (backlog s) = [] \<and> notifyq s = []"
    using idle by (simp add: idle_listener_def)
  note 2 = idle_listener_moves [OF idle coh, of env]
  note 3 = idle_listener_finishes [OF idle coh, of env]
  have 4: "\<forall>c. sel_step env c s =
               (if c = Proceed \<and> lpc s = LisExited then Some (s\<lparr>spc := SelReturn\<rparr>) else None)"
    if "spc s = SelDrain"
  proof
    fix c
    show "sel_step env c s =
               (if c = Proceed \<and> lpc s = LisExited then Some (s\<lparr>spc := SelReturn\<rparr>) else None)"
      using that 1 coh by (cases c) (auto simp: sel_step_def chan_recv_def coherent_def)
  qed
  have 5: "exec env (listener_rest (lpc s) @ [Sel Proceed, Sel Proceed]) s =
              Some (s\<lparr>backlog := (backlog s)\<lparr>closed := True\<rparr>, lpc := LisExited,
                      C := (C s)\<lparr>closed := True\<rparr>, spc := SelExited\<rparr>)"
    if "spc s = SelDrain"
  proof (rule exec_append_Some [OF 3])
    let ?t = "s\<lparr>backlog := (backlog s)\<lparr>closed := True\<rparr>, lpc := LisExited\<rparr>"
    have "\<not> closed (C s)" using that coh by (simp add: coherent_def)
    then have "exec env [Sel Proceed, Sel Proceed] ?t =
           Some (?t\<lparr>C := (C ?t)\<lparr>closed := True\<rparr>, spc := SelExited\<rparr>)"
      using that 1 by (intro drained_scan_closes) simp_all
    then show "exec env [Sel Proceed, Sel Proceed] ?t =
           Some (s\<lparr>backlog := (backlog s)\<lparr>closed := True\<rparr>, lpc := LisExited,
                      C := (C s)\<lparr>closed := True\<rparr>, spc := SelExited\<rparr>)"
      by simp
  qed
  from 1 2 3 4 5 show ?thesis by simp
qed

theorem non_live_cursor_stops_witness:
  "\<not> Updates history_all \<and>
   exec env_ok [Sel Proceed, Sel Proceed, Sel Proceed, Sel SendCase, Sel Proceed]
      (Get single_table ''t'' history_all) =
     Some ((Get single_table ''t'' history_all)
        \<lparr>C := \<lparr>buf = [\<lparr>ID = 1, Data = ''{}''\<rparr>], cap = 1024, closed = False\<rparr>, spc := SelDrain\<rparr>) \<and>
   exec env_ok [Lis Proceed, Lis Proceed, Sel Proceed, Sel Proceed]
     ((Get single_table ''t'' history_all)
        \<lparr>C := \<lparr>buf = [\<lparr>ID = 1, Data = ''{}''\<rparr>], cap = 1024, closed = False\<rparr>, spc := SelDrain\<rparr>) =
     Some ((Get single_table ''t'' history_all)
        \<lparr>C := \<lparr>buf = [\<lparr>ID = 1, Data = ''{}''\<rparr>], cap = 1024, closed = True\<rparr>,
         backlog := \<lparr>buf = [], cap = 1024, closed = True\<rparr>,
         lpc := LisExited, spc := SelExited\<rparr>)"
proof -
  let ?s = "(Get single_table ''t'' history_all)
        \<lparr>C := \<lparr>buf = [\<lparr>ID = 1, Data = ''{}''\<rparr>], cap = 1024, closed = False\<rparr>, spc := SelDrain\<rparr>"
  have u: "\<not> Updates history_all" by (simp add: history_all_def)
  have r: "exec env_ok [Sel Proceed, Sel Proceed, Sel Proceed, Sel SendCase, Sel Proceed]
      (Get single_table ''t'' history_all) = Some ?s"
    by (simp add: run_simps env_ok_def history_all_def single_table_def)
  have p: "spc ?s = SelDrain" by simp
  have l: "listener_rest (lpc ?s) = [Lis Proceed, Lis Proceed]" by (simp add: Get_def)
  from non_live_cursor_stops [OF u r] p
  have "exec env_ok (listener_rest (lpc ?s) @ [Sel Proceed, Sel Proceed]) ?s =
              Some (?s\<lparr>backlog := (backlog ?s)\<lparr>closed := True\<rparr>, lpc := LisExited,
                      C := (C ?s)\<lparr>closed := True\<rparr>, spc := SelExited\<rparr>)"
    by blast
  then have "exec env_ok [Lis Proceed, Lis Proceed, Sel Proceed, Sel Proceed] ?s =
              Some (?s\<lparr>backlog := (backlog ?s)\<lparr>closed := True\<rparr>, lpc := LisExited,
                      C := (C ?s)\<lparr>closed := True\<rparr>, spc := SelExited\<rparr>)"
    unfolding l by simp
  with u r show ?thesis by (simp add: Get_def make_chan_def)
qed

section \<open>Notifications are re-checked against the store\<close>



section \<open>The offset applies to the historical scan only\<close>




section \<open>Draining a cursor without live tail\<close>

text \<open>
  Claim C1.  Let the filter have \<^verbatim>\<open>Updates = false\<close> and a condition that builds, and let
  the store answer queries faithfully.  In every state reached without a call of \<^verbatim>\<open>Close\<close>
  and without an insertion: the scan's first step builds the one statement selecting
  \<^verbatim>\<open>id\<close> and \<^verbatim>\<open>data\<close> with the filter's condition and offset, ordered by \<^verbatim>\<open>id\<close>; the rows
  the consumer has taken, followed by those waiting in the output queue, are an initial
  segment of the expected rows, in their order; and once the output queue is closed they
  are all of them; as long as the output queue is not closed and empty, the scan, the
  listener or the consumer can take a step, and each of their steps lowers the bound
  \<open>steps_left\<close>, so however the three are scheduled the stream ends, closed and drained.
  The store's answer to that statement is the expected rows.  The
  cursor can always be drained: the schedule \<open>drain_all\<close> ends with the output queue closed
  and empty and the consumer holding exactly the expected rows.  When the ids of the
  table are distinct, the expected rows are in strictly ascending order of \<^verbatim>\<open>ID\<close>.
\<close>

theorem historical_scan_yields_matches:
  assumes "\<not> Updates flt"
    and "Sqlizer flt = Inr p"
    and "db_Query env = healthy_Query"
  shows "(exec env sched (Get db tbl flt) = Some s \<and> list_all quiet sched \<longrightarrow>
            (spc s = SelStart \<longrightarrow>
               sel_step env Proceed s =
                 Some (s\<lparr>spc := SelQuery (history_stmt tbl p (Offset flt))\<rparr>)) \<and>
            take (length (received s @ buf (C s))) (expected_rows p (Offset flt) (db tbl)) =
              received s @ buf (C s) \<and>
            (closed (C s) \<longrightarrow> received s @ buf (C s) = expected_rows p (Offset flt) (db tbl)) \<and>
            (closed (C s) \<and> buf (C s) = [] \<or>
             step env (Sel Proceed) s \<noteq> None \<or> step env (Sel SendCase) s \<noteq> None \<or>
             step env (Lis Proceed) s \<noteq> None \<or> step env Consume s \<noteq> None) \<and>
            (\<forall>a s'. is_move a \<and> step env a s = Some s' \<longrightarrow>
               steps_left (length (expected_rows p (Offset flt) (db tbl))) s' <
               steps_left (length (expected_rows p (Offset flt) (db tbl))) s)) \<and>
         run_select db (history_stmt tbl p (Offset flt)) = expected_rows p (Offset flt) (db tbl) \<and>
         list_all quiet (drain_all (length (expected_rows p (Offset flt) (db tbl)))) \<and>
         exec env (drain_all (length (expected_rows p (Offset flt) (db tbl)))) (Get db tbl flt) =
           Some ((Get db tbl flt)
             \<lparr>C := \<lparr>buf = [], cap = 1024, closed = True\<rparr>,
              backlog := \<lparr>buf = [], cap = 1024, closed = True\<rparr>,
              lpc := LisExited, spc := SelExited,
              received := expected_rows p (Offset flt) (db tbl)\<rparr>) \<and>
         (distinct (map ID (db tbl)) \<longrightarrow>
            sorted_wrt (<) (map ID (expected_rows p (Offset flt) (db tbl))))"
proof -
  let ?ex = "expected_rows p (Offset flt) (db tbl)"
  let ?q = "history_stmt tbl p (Offset flt)"
  have ex: "run_select db ?q = ?ex"
    by (simp add: run_select_def history_stmt_def expected_rows_def)
  have 1: "(spc s = SelStart \<longrightarrow> sel_step env Proceed s = Some (s\<lparr>spc := SelQuery ?q\<rparr>)) \<and>
           take (length (received s @ buf (C s))) ?ex = received s @ buf (C s) \<and>
           (closed (C s) \<longrightarrow> received s @ buf (C s) = ?ex) \<and>
           (closed (C s) \<and> buf (C s) = [] \<or>
            step env (Sel Proceed) s \<noteq> None \<or> step env (Sel SendCase) s \<noteq> None \<or>
            step env (Lis Proceed) s \<noteq> None \<or> step env Consume s \<noteq> None) \<and>
           (\<forall>a s'. is_move a \<and> step env a s = Some s' \<longrightarrow>
              steps_left (length ?ex) s' < steps_left (length ?ex) s)"
    if run: "exec env sched (Get db tbl flt) = Some s" and q: "list_all quiet sched"
  proof -
    have coh: "coherent s"
      using coherent_exec [OF coherent_Get run] .
    have idle: "idle_listener s"
      using idle_exec [OF idle_Get [OF assms(1)] coherent_Get run] .
    have h: "hist p tbl (Offset flt) db s"
      using hist_exec [OF run q assms(3) hist_Get [OF assms(2)] idle_Get [OF assms(1)] coherent_Get] .
    then have sh: "sel_hist ?q ?ex (received s @ buf (C s)) (spc s)"
      by (simp add: hist_def ex)
    have a: "spc s = SelStart \<longrightarrow> sel_step env Proceed s = Some (s\<lparr>spc := SelQuery ?q\<rparr>)"
      using history_builds [of s p env] h by (simp add: hist_def)
    have b: "take (length (received s @ buf (C s))) ?ex = received s @ buf (C s)"
      using sel_hist_prefix [OF sh] .
    have c: "closed (C s) \<longrightarrow> received s @ buf (C s) = ?ex"
      using sh coh by (auto simp: coherent_def)
    note d = scan_progress [OF h assms(3) idle coh]
    have e: "\<forall>a s'. is_move a \<and> step env a s = Some s' \<longrightarrow>
              steps_left (length ?ex) s' < steps_left (length ?ex) s"
      using move_decreases [OF h _ _ assms(3) idle coh] by (auto simp: ex)
    from a b c d e show ?thesis by blast
  qed
  note 2 = quiet_drain_all [of "length ?ex"]
  note 3 = drain_all_run [OF assms, of db tbl]
  note 4 = expected_rows_ascending [of "db tbl" p "Offset flt"]
  from 1 ex 2 3 4 show ?thesis by blast
qed

theorem historical_scan_yields_matches_witness:
  "\<not> Updates skip_one \<and>
   expected_rows (\<lambda>r. 2 \<le> ID r) 1 (shuffled ''t'') = [\<lparr>ID = 3, Data = ''[3]''\<rparr>] \<and>
   exec env_ok (drain_all 1) (Get shuffled ''t'' skip_one) =
     Some ((Get shuffled ''t'' skip_one)
             \<lparr>C := \<lparr>buf = [], cap = 1024, closed = True\<rparr>,
              backlog := \<lparr>buf = [], cap = 1024, closed = True\<rparr>,
              lpc := LisExited, spc := SelExited,
              received := [\<lparr>ID = 3, Data = ''[3]''\<rparr>]\<rparr>) \<and>
   exec env_ok [Sel Proceed, Sel Proceed, Sel Proceed, Sel SendCase, Sel Proceed, Lis Proceed,
                Lis Proceed, Sel Proceed, Sel Proceed]
     (Get shuffled ''t'' skip_one) =
     Some ((Get shuffled ''t'' skip_one)
             \<lparr>C := \<lparr>buf = [\<lparr>ID = 3, Data = ''[3]''\<rparr>], cap = 1024, closed = True\<rparr>,
              backlog := \<lparr>buf = [], cap = 1024, closed = True\<rparr>,
              lpc := LisExited, spc := SelExited\<rparr>)"
proof -
  let ?p = "\<lambda>r. 2 \<le> ID r"
  let ?g = "Get shuffled ''t'' skip_one"
  let ?sched = "[Sel Proceed, Sel Proceed, Sel Proceed, Sel SendCase, Sel Proceed, Lis Proceed,
                Lis Proceed, Sel Proceed, Sel Proceed]"
  let ?s = "?g\<lparr>C := \<lparr>buf = [\<lparr>ID = 3, Data = ''[3]''\<rparr>], cap = 1024, closed = True\<rparr>,
              backlog := \<lparr>buf = [], cap = 1024, closed = True\<rparr>,
              lpc := LisExited, spc := SelExited\<rparr>"
  have u: "\<not> Updates skip_one" and f: "Sqlizer skip_one = Inr ?p" and o: "Offset skip_one = 1"
    by (simp_all add: skip_one_def)
  have h: "db_Query env_ok = healthy_Query" by (simp add: env_ok_def)
  have e: "expected_rows ?p 1 (shuffled ''t'') = [\<lparr>ID = 3, Data = ''[3]''\<rparr>]"
    by (simp add: expected_rows_def shuffled_def)
  have r: "exec env_ok ?sched ?g = Some ?s"
    by (simp add: run_simps env_ok_def skip_one_def shuffled_def)
  have q: "list_all quiet ?sched" by (simp add: quiet_def)
  note t = historical_scan_yields_matches [OF u f h, of ?sched shuffled "''t''" ?s]
  from t have "exec env_ok (drain_all (length (expected_rows ?p (Offset skip_one) (shuffled ''t''))))
      ?g = Some (?g\<lparr>C := \<lparr>buf = [], cap = 1024, closed = True\<rparr>,
              backlog := \<lparr>buf = [], cap = 1024, closed = True\<rparr>,
              lpc := LisExited, spc := SelExited,
              received := expected_rows ?p (Offset skip_one) (shuffled ''t'')\<rparr>)"
    by blast
  then have 1: "exec env_ok (drain_all 1) ?g =
     Some (?g\<lparr>C := \<lparr>buf = [], cap = 1024, closed = True\<rparr>,
              backlog := \<lparr>buf = [], cap = 1024, closed = True\<rparr>,
              lpc := LisExited, spc := SelExited,
              received := [\<lparr>ID = 3, Data = ''[3]''\<rparr>]\<rparr>)"
    by (simp add: o e)
  from u e 1 r show ?thesis by blast
qed

end
